theory Spec2Isabelle
  imports Complex_Main "HOL-Library.List_Lexorder" "HOL-Library.Product_Lexorder"
    "HOL-Library.Option_ord" "HOL-Library.Multiset"
begin

section \<open>Order modification pipeline (hu6\_ModPedido.py)\<close>

text \<open>
  A shallow embedding of the order-modification service: the \<open>ModEvent\<close> request with its
  priority key, \<open>OrderRepository.apply_modification_atomic\<close> and \<open>fetch_one\<close> over the
  \<open>orders\<close> table, the priority queue, and \<open>ModService\<close> with its retry loop, its
  notification fan-out and its metrics.

  Modelling decisions.
  \<^item> A Python \<open>str\<close> is the list of its code points, so that \<open>strip\<close> and the comparison of
    two strings are those of Python.
  \<^item> The \<open>orders\<close> table is a map from the primary key to the row; a row is a record of the
    nine columns. Nobody else writes between two accesses of the worker; another process
    can hold the database, and then a call of the repository raises
    \<open>sqlite3.OperationalError\<close>.
  \<^item> Timestamps and latencies are \<open>real\<close> numbers (Python floats, without rounding). The
    wall clock \<open>time.time()\<close> is a sequence of readings \<open>clock env 0, clock env 1, \<dots>\<close>; the
    world counts the readings taken so far.
  \<^item> What the libraries decide is a parameter: the date parser
    \<open>datetime.strptime(s, "%Y-%m-%d %H:%M:%S").timestamp()\<close> with the exception it raises on
    text it does not accept, and the exception of \<open>sqlite3\<close> for a text it cannot bind.
  \<^item> Every raise of the source is a value of type \<open>error\<close>; a function that can raise returns
    the error next to the state it leaves behind.
  \<^item> The observable effects of the worker (store calls, sleeps, notifications, log lines,
    pushes of the metrics to the user interface) are appended to a trace.
  \<^item> Python's \<open>int\<close> is \<open>int\<close>; where \<open>sqlite3\<close> binds one as a signed 64-bit integer the
    \<open>OverflowError\<close> outside the range is a branch of the model.
  \<^item> The priority queue is the list that \<open>heapq\<close> keeps as a binary heap, with the
    comparison the dataclass generates, which raises \<open>TypeError\<close> between \<open>None\<close> and a
    value.
\<close>

subsection \<open>Configuration\<close>

definition EDIT_WINDOW_SECONDS :: real where
  "EDIT_WINDOW_SECONDS = 5 * 60"

definition MAX_RETRIES :: nat where
  "MAX_RETRIES = 3"

definition INITIAL_BACKOFF_S :: real where
  "INITIAL_BACKOFF_S = 25 / 100"

datatype error =
  ValueError | TypeError | IndexError | OverflowError | UnicodeEncodeError
| IntegrityError | OperationalError | DataError | Empty | CallbackError

subsection \<open>Strings\<close>

type_synonym str = "nat list"

text \<open>The \<open>str\<close> of a literal of the source.\<close>

definition lit :: "string \<Rightarrow> str" where
  "lit s = map of_char s"

text \<open>Python's truth value of an \<open>Optional[str]\<close>: \<open>None\<close> and the empty string are false.\<close>

definition truthy :: "str option \<Rightarrow> bool" where
  "truthy s = (case s of None \<Rightarrow> False | Some t \<Rightarrow> t \<noteq> [])"

text \<open>
  \<open>str.strip()\<close> removes the leading and trailing characters that \<open>str.isspace\<close> accepts:
  U+0009 to U+000D, U+001C to U+0020, U+0085, U+00A0, U+1680, U+2000 to U+200A, U+2028,
  U+2029, U+202F, U+205F and U+3000.
\<close>

definition isspace :: "nat \<Rightarrow> bool" where
  "isspace c =
     (c \<in> set [9, 10, 11, 12, 13, 28, 29, 30, 31, 32, 133, 160, 5760,
                8192, 8193, 8194, 8195, 8196, 8197, 8198, 8199, 8200, 8201, 8202,
                8232, 8233, 8239, 8287, 12288])"

definition strip :: "str \<Rightarrow> str" where
  "strip s = rev (dropWhile isspace (rev (dropWhile isspace s)))"

text \<open>\<open>to_ts\<close>: \<open>None\<close> for a null or empty text, else what the parser returns or raises.\<close>

definition to_ts :: "(str \<Rightarrow> error + real) \<Rightarrow> str option \<Rightarrow> error + real option" where
  "to_ts parse dt_str =
     (case dt_str of
        None \<Rightarrow> Inr None
      | Some s \<Rightarrow>
          if s = [] then Inr None
          else (case parse s of Inl e \<Rightarrow> Inl e | Inr t \<Rightarrow> Inr (Some t)))"

subsection \<open>The modification request\<close>

record ModEvent =
  urgent :: bool
  order_id :: int
  new_client_name :: "str option"
  new_product :: "str option"
  new_size :: "str option"
  new_qty :: "int option"
  new_payment_method :: "str option"
  req_id :: str
  requested_at :: str

text \<open>
  \<open>__post_init__\<close> computes the field \<open>sort_index\<close> from \<open>urgent\<close> and \<open>new_qty\<close>; nothing
  assigns it afterwards, so it is a function of the request.
\<close>

definition sort_index :: "ModEvent \<Rightarrow> int \<times> int" where
  "sort_index ev =
     (let qty = (case new_qty ev of None \<Rightarrow> 9999 | Some q \<Rightarrow> if q > 0 then q else 9999);
          prio = (if urgent ev then 0 else 1)
      in (prio, qty))"

subsection \<open>The repository\<close>

record order =
  id_col :: int
  client_name :: str
  product_col :: str
  size_col :: str
  qty :: int
  payment_method :: str
  state :: str
  created_at :: str
  confirmed_at :: "str option"

type_synonym orders = "int \<rightharpoonup> order"

text \<open>
  The dictionary \<open>changes\<close>: one optional entry per editable column. \<open>None\<close> stands for a
  key that is absent or whose value is \<open>None\<close>; the repository treats the two alike.
\<close>

record changes =
  c_client_name :: "str option"
  c_product :: "str option"
  c_size :: "str option"
  c_qty :: "int option"
  c_payment_method :: "str option"

text \<open>
  \<open>sqlite3\<close> binds a Python \<open>int\<close> as a signed 64-bit integer and raises \<open>OverflowError\<close>
  for one outside that range.
\<close>

definition int64 :: "int \<Rightarrow> bool" where
  "int64 v = (- (2 ^ 63) \<le> v \<and> v < 2 ^ 63)"

text \<open>
  A call of the repository needs the database. \<open>busy\<close> says that it does not get it: the
  database stays locked by another process past the timeout of the connection, and the
  statement that needs the lock raises \<open>sqlite3.OperationalError\<close>. In \<open>fetch_one\<close> that
  statement is the \<open>SELECT\<close>, whose parameter is bound before it runs.
\<close>

definition fetch_one :: "bool \<Rightarrow> orders \<Rightarrow> int \<Rightarrow> error + order option" where
  "fetch_one busy tbl oid =
     (if \<not> int64 oid then Inl OverflowError
      else if busy then Inl OperationalError
      else Inr (tbl oid))"

text \<open>The \<open>SET\<close> clauses of the dynamic \<open>UPDATE\<close>, in the order of the source's loop.\<close>

datatype assignment =
  SetClientName str
| SetProduct str
| SetSize str
| SetQty int
| SetPaymentMethod str

definition build_sets :: "changes \<Rightarrow> assignment list" where
  "build_sets ch =
     (case c_client_name ch of None \<Rightarrow> [] | Some v \<Rightarrow> [SetClientName v]) @
     (case c_product ch of None \<Rightarrow> [] | Some v \<Rightarrow> [SetProduct v]) @
     (case c_size ch of None \<Rightarrow> [] | Some v \<Rightarrow> [SetSize v]) @
     (case c_qty ch of None \<Rightarrow> [] | Some v \<Rightarrow> [SetQty v]) @
     (case c_payment_method ch of None \<Rightarrow> [] | Some v \<Rightarrow> [SetPaymentMethod v])"

fun assign :: "assignment \<Rightarrow> order \<Rightarrow> order" where
  "assign (SetClientName v) r = r\<lparr>client_name := v\<rparr>"
| "assign (SetProduct v) r = r\<lparr>product_col := v\<rparr>"
| "assign (SetSize v) r = r\<lparr>size_col := v\<rparr>"
| "assign (SetQty v) r = r\<lparr>qty := v\<rparr>"
| "assign (SetPaymentMethod v) r = r\<lparr>payment_method := v\<rparr>"

text \<open>
  Binding a parameter of the statement. An integer outside the signed 64-bit range raises
  \<open>OverflowError\<close>. What \<open>sqlite3\<close> raises for a text it cannot bind
  (\<open>UnicodeEncodeError\<close> for a lone surrogate, an error for a text over the length limit of
  the database) is the parameter \<open>refuses\<close>.
\<close>

fun bind :: "(str \<Rightarrow> error option) \<Rightarrow> assignment \<Rightarrow> error option" where
  "bind refuses (SetClientName v) = refuses v"
| "bind refuses (SetProduct v) = refuses v"
| "bind refuses (SetSize v) = refuses v"
| "bind refuses (SetQty v) = (if int64 v then None else Some OverflowError)"
| "bind refuses (SetPaymentMethod v) = refuses v"

text \<open>The parameters are bound in their order; the first that fails raises.\<close>

fun first_error :: "('a \<Rightarrow> error option) \<Rightarrow> 'a list \<Rightarrow> error option" where
  "first_error f [] = None"
| "first_error f (x # xs) = (case f x of Some e \<Rightarrow> Some e | None \<Rightarrow> first_error f xs)"

text \<open>
  The table's constraint \<open>CHECK(qty > 0)\<close> is tested when the statement assigns \<open>qty\<close>; its
  violation raises \<open>sqlite3.IntegrityError\<close>.
\<close>

fun violates_check :: "assignment \<Rightarrow> bool" where
  "violates_check (SetQty v) = (v \<le> 0)"
| "violates_check _ = False"

text \<open>
  \<open>UPDATE orders SET \<dots> WHERE id=?\<close> on the row found: the parameters are bound, the
  statement runs under the constraint, and a statement that raises writes nothing.
\<close>

definition sql_update :: "(str \<Rightarrow> error option) \<Rightarrow> order \<Rightarrow> assignment list \<Rightarrow> error + order" where
  "sql_update refuses row sets =
     (case first_error (bind refuses) sets of
        Some e \<Rightarrow> Inl e
      | None \<Rightarrow>
          if list_ex violates_check sets then Inl IntegrityError
          else Inr (fold assign sets row))"

definition locked_states :: "str list" where
  "locked_states = [lit ''cancelled'', lit ''cooking'', lit ''done'']"

text \<open>
  \<open>apply_modification_atomic\<close>; \<open>now\<close> is the reading of \<open>time.time()\<close> inside the
  transaction. \<open>BEGIN EXCLUSIVE\<close> is the statement that needs the lock; the \<open>SELECT\<close> binds
  the order id. The result is the return value (or the exception) and the table
  afterwards: every path but the last rolls back.
\<close>

definition apply_modification_atomic ::
    "(str \<Rightarrow> error + real) \<Rightarrow> (str \<Rightarrow> error option) \<Rightarrow> bool \<Rightarrow> real \<Rightarrow> orders \<Rightarrow> int \<Rightarrow> changes
      \<Rightarrow> (error + bool) \<times> orders" where
  "apply_modification_atomic parse refuses busy now tbl oid ch =
     (if busy then (Inl OperationalError, tbl)
      else if \<not> int64 oid then (Inl OverflowError, tbl)
      else
        (case tbl oid of
           None \<Rightarrow> (Inr False, tbl)
         | Some row \<Rightarrow>
             if \<not> truthy (confirmed_at row) then (Inr False, tbl)
             else
               (case to_ts parse (confirmed_at row) of
                  Inl e \<Rightarrow> (Inl e, tbl)
                | Inr ts \<Rightarrow>
                    if (case ts of None \<Rightarrow> True | Some t \<Rightarrow> now - t > EDIT_WINDOW_SECONDS)
                    then (Inr False, tbl)
                    else if state row \<in> set locked_states then (Inr False, tbl)
                    else if build_sets ch = [] then (Inr False, tbl)
                    else
                      (case sql_update refuses row (build_sets ch) of
                         Inl e \<Rightarrow> (Inl e, tbl)
                       | Inr row' \<Rightarrow> (Inr True, tbl(oid \<mapsto> row'))))))"

text \<open>
  Whether the call reads the clock: it does when it reaches \<open>time.time()\<close> in the test of
  the window, that is when it has the database, finds the row with a \<open>confirmed_at\<close> that
  is not empty, and \<open>to_ts\<close> returns a number.
\<close>

definition reads_clock :: "(str \<Rightarrow> error + real) \<Rightarrow> bool \<Rightarrow> orders \<Rightarrow> int \<Rightarrow> bool" where
  "reads_clock parse busy tbl oid =
     (if busy \<or> \<not> int64 oid then False
      else (case tbl oid of
              None \<Rightarrow> False
            | Some row \<Rightarrow>
                truthy (confirmed_at row) \<and>
                (case to_ts parse (confirmed_at row) of
                   Inl e \<Rightarrow> False
                 | Inr None \<Rightarrow> False
                 | Inr (Some t) \<Rightarrow> True)))"

subsection \<open>Outcome codes and metrics\<close>

datatype code = MOD_OK | TIME_EXPIRED | SYNC_FAIL | MOD_FAIL

text \<open>The dictionary \<open>ModService.metrics\<close>: a counter per code, the average and the total.\<close>

record metrics =
  n_MOD_OK :: nat
  n_TIME_EXPIRED :: nat
  n_SYNC_FAIL :: nat
  n_MOD_FAIL :: nat
  avg_latency_ms :: real
  processed :: nat

definition metrics0 :: metrics where
  "metrics0 = \<lparr>n_MOD_OK = 0, n_TIME_EXPIRED = 0, n_SYNC_FAIL = 0, n_MOD_FAIL = 0,
               avg_latency_ms = 0, processed = 0\<rparr>"

fun counter :: "code \<Rightarrow> metrics \<Rightarrow> nat" where
  "counter MOD_OK m = n_MOD_OK m"
| "counter TIME_EXPIRED m = n_TIME_EXPIRED m"
| "counter SYNC_FAIL m = n_SYNC_FAIL m"
| "counter MOD_FAIL m = n_MOD_FAIL m"

text \<open>\<open>self.metrics[code] = self.metrics.get(code, 0) + 1\<close>\<close>

fun bump :: "code \<Rightarrow> metrics \<Rightarrow> metrics" where
  "bump MOD_OK m = m\<lparr>n_MOD_OK := n_MOD_OK m + 1\<rparr>"
| "bump TIME_EXPIRED m = m\<lparr>n_TIME_EXPIRED := n_TIME_EXPIRED m + 1\<rparr>"
| "bump SYNC_FAIL m = m\<lparr>n_SYNC_FAIL := n_SYNC_FAIL m + 1\<rparr>"
| "bump MOD_FAIL m = m\<lparr>n_MOD_FAIL := n_MOD_FAIL m + 1\<rparr>"

definition update_latency :: "metrics \<Rightarrow> real \<Rightarrow> metrics" where
  "update_latency m ms =
     (let n = processed m; avg = avg_latency_ms m
      in m\<lparr>avg_latency_ms := (avg * real n + ms) / (real n + 1)\<rparr>)"

text \<open>
  The part of \<open>_finish\<close> that touches the metrics, in the source's order: the total, the
  counter of the code, then the average.
\<close>

definition record_outcome :: "metrics \<Rightarrow> code \<Rightarrow> real \<Rightarrow> metrics" where
  "record_outcome m c latency_ms =
     (let m1 = m\<lparr>processed := processed m + 1\<rparr>;
          m2 = bump c m1
      in update_latency m2 latency_ms)"

subsection \<open>The environment and the world\<close>

text \<open>The dictionary \<open>info\<close> of a request and the structured log line of \<open>_finish\<close>
  (without \<open>finished_at\<close>, and with the latency not rounded).\<close>

record info =
  reason :: "string option"
  info_changes :: "changes option"

record log_obj =
  tx_id :: str
  log_order_id :: int
  log_urgent :: bool
  log_requested_at :: str
  log_code :: code
  latency_ms :: real
  log_info :: info

datatype effect =
  Apply int changes
| Fetch int
| Sleep real
| KitchenNotify int changes
| ClientNotify int changes
| LogInfo log_obj
| UiMetricsUpdate metrics

text \<open>
  What the worker does not control: the clock, the date parser, the text \<open>sqlite3\<close> refuses
  to bind, whether the database is busy at the worker's \<open>n\<close>-th call of the repository, and
  whether a call of an injected callback (\<open>kitchen.notify_update\<close>,
  \<open>client.notify_update\<close>, \<open>ui_metrics_update\<close>) raises.
\<close>

record env =
  clock :: "nat \<Rightarrow> real"
  strptime :: "str \<Rightarrow> error + real"
  text_error :: "str \<Rightarrow> error option"
  db_busy :: "nat \<Rightarrow> bool"
  kitchen_raises :: "int \<Rightarrow> changes \<Rightarrow> bool"
  client_raises :: "int \<Rightarrow> changes \<Rightarrow> bool"
  ui_raises :: "metrics \<Rightarrow> bool"

text \<open>The world: the table, the metrics, the number of clock readings and of calls of the
  repository so far, and the trace.\<close>

record world =
  db :: orders
  stats :: metrics
  tick :: nat
  calls :: nat
  trace :: "effect list"

definition time_time :: "env \<Rightarrow> world \<Rightarrow> real \<times> world" where
  "time_time env w = (clock env (tick w), w\<lparr>tick := tick w + 1\<rparr>)"

definition emit :: "effect list \<Rightarrow> world \<Rightarrow> world" where
  "emit es w = w\<lparr>trace := trace w @ es\<rparr>"

definition finish :: "env \<Rightarrow> world \<Rightarrow> ModEvent \<Rightarrow> code \<Rightarrow> real \<Rightarrow> info \<Rightarrow> error option \<times> world" where
  "finish env w ev c t0 details =
     (let (now, w1) = time_time env w;
          ms = (now - t0) * 1000;
          m = record_outcome (stats w1) c ms;
          log = \<lparr>tx_id = req_id ev, log_order_id = order_id ev, log_urgent = urgent ev,
                 log_requested_at = requested_at ev, log_code = c, latency_ms = ms,
                 log_info = details\<rparr>;
          w2 = emit [LogInfo log, UiMetricsUpdate m] (w1\<lparr>stats := m\<rparr>)
      in (if ui_raises env m then Some CallbackError else None, w2))"

subsection \<open>The worker\<close>

text \<open>The change set the worker builds from the truthy fields of a request.\<close>

definition stripped :: "str option \<Rightarrow> str option" where
  "stripped s = (if truthy s then map_option strip s else None)"

definition build_changes :: "ModEvent \<Rightarrow> changes" where
  "build_changes ev =
     \<lparr>c_client_name = stripped (new_client_name ev),
      c_product = stripped (new_product ev),
      c_size = stripped (new_size ev),
      c_qty = (case new_qty ev of None \<Rightarrow> None | Some q \<Rightarrow> if q > 0 then Some q else None),
      c_payment_method = stripped (new_payment_method ev)\<rparr>"

definition valid_products :: "str list" where
  "valid_products = [lit ''pepperoni'', lit ''hawaiana'']"

definition valid_sizes :: "str list" where
  "valid_sizes = [lit ''personal'', lit ''mediana'', lit ''grande'']"

definition valid_pay :: "str list" where
  "valid_pay = [lit ''efectivo'', lit ''tarjeta'', lit ''transferencia'']"

definition outside :: "str option \<Rightarrow> str list \<Rightarrow> bool" where
  "outside v allowed = (case v of None \<Rightarrow> False | Some x \<Rightarrow> x \<notin> set allowed)"

text \<open>The local validation: the reason of the first check that fails, if one does.\<close>

definition validate :: "changes \<Rightarrow> string option" where
  "validate ch =
     (if outside (c_product ch) valid_products then Some ''invalid_product''
      else if outside (c_size ch) valid_sizes then Some ''invalid_size''
      else if outside (c_payment_method ch) valid_pay then Some ''invalid_payment''
      else None)"

text \<open>
  One call of \<open>apply_modification_atomic\<close> by the worker: the call is the next of the
  repository, and it takes the next reading of the clock if it reads the clock.
\<close>

definition call_apply :: "env \<Rightarrow> world \<Rightarrow> int \<Rightarrow> changes \<Rightarrow> (error + bool) \<times> world" where
  "call_apply env w oid ch =
     (let w0 = emit [Apply oid ch] w;
          busy = db_busy env (calls w0);
          (ok, db') = apply_modification_atomic (strptime env) (text_error env) busy
                        (clock env (tick w0)) (db w0) oid ch;
          t = (if reads_clock (strptime env) busy (db w0) oid then tick w0 + 1 else tick w0)
      in (ok, w0\<lparr>db := db', calls := calls w0 + 1, tick := t\<rparr>))"

definition call_fetch_one :: "env \<Rightarrow> world \<Rightarrow> int \<Rightarrow> (error + order option) \<times> world" where
  "call_fetch_one env w oid =
     (let w0 = emit [Fetch oid] w
      in (fetch_one (db_busy env (calls w0)) (db w0) oid, w0\<lparr>calls := calls w0 + 1\<rparr>))"

text \<open>
  The loop \<open>for attempt in range(1, MAX_RETRIES+1)\<close>, by the number of attempts left. It
  returns \<open>applied\<close>, \<open>code\<close> and \<open>info["reason"]\<close> as the loop leaves them; \<open>code\<close> is
  \<open>MOD_FAIL\<close> and the reason absent unless a branch sets them.
\<close>

fun retry_loop ::
    "env \<Rightarrow> nat \<Rightarrow> real \<Rightarrow> world \<Rightarrow> int \<Rightarrow> changes
      \<Rightarrow> (error + bool \<times> code \<times> string option) \<times> world" where
  "retry_loop env 0 backoff w oid ch = (Inr (False, MOD_FAIL, None), w)"
| "retry_loop env (Suc n) backoff w oid ch =
     (let (ok, w1) = call_apply env w oid ch
      in case ok of
           Inl e \<Rightarrow> (Inl e, w1)
         | Inr True \<Rightarrow> (Inr (True, MOD_FAIL, None), w1)
         | Inr False \<Rightarrow>
             (let (current, w2) = call_fetch_one env w1 oid
              in case current of
                   Inl e \<Rightarrow> (Inl e, w2)
                 | Inr None \<Rightarrow> (Inr (False, MOD_FAIL, Some ''not_found_or_unconfirmed''), w2)
                 | Inr (Some row) \<Rightarrow>
                     if \<not> truthy (confirmed_at row)
                     then (Inr (False, MOD_FAIL, Some ''not_found_or_unconfirmed''), w2)
                     else
                       (case to_ts (strptime env) (confirmed_at row) of
                          Inl e \<Rightarrow> (Inl e, w2)
                        | Inr None \<Rightarrow>
                            (Inr (False, TIME_EXPIRED, Some ''edit_window_passed''), w2)
                        | Inr (Some t) \<Rightarrow>
                            (let (now2, w3) = time_time env w2
                             in if now2 - t > EDIT_WINDOW_SECONDS
                                then (Inr (False, TIME_EXPIRED, Some ''edit_window_passed''), w3)
                                else retry_loop env n (backoff * 2)
                                       (emit [Sleep backoff] w3) oid ch))))"

text \<open>The two guarded notifications, kitchen first; the result is \<open>sync_ok\<close>.\<close>

definition notify :: "env \<Rightarrow> world \<Rightarrow> int \<Rightarrow> changes \<Rightarrow> bool \<times> world" where
  "notify env w oid ch =
     (let k = kitchen_raises env oid ch;
          w1 = emit [KitchenNotify oid ch] w;
          c = client_raises env oid ch;
          w2 = emit [ClientNotify oid ch] w1
      in (\<not> k \<and> \<not> c, w2))"

text \<open>
  One iteration of the worker's loop on a request that is not the stop signal. The result
  is the exception that leaves the loop, if one does, and the world.
\<close>

definition process_event :: "env \<Rightarrow> world \<Rightarrow> ModEvent \<Rightarrow> error option \<times> world" where
  "process_event env w ev =
     (let (t0, w1) = time_time env w;
          ch = build_changes ev
      in case validate ch of
           Some r \<Rightarrow> finish env w1 ev MOD_FAIL t0 \<lparr>reason = Some r, info_changes = None\<rparr>
         | None \<Rightarrow>
             (case retry_loop env MAX_RETRIES INITIAL_BACKOFF_S w1 (order_id ev) ch of
                (Inl e, w2) \<Rightarrow> (Some e, w2)
              | (Inr (applied, c, r), w2) \<Rightarrow>
                  if \<not> applied
                  then finish env w2 ev (if c \<noteq> TIME_EXPIRED then MOD_FAIL else c) t0
                         \<lparr>reason = r, info_changes = None\<rparr>
                  else
                    (let (sync_ok, w3) = notify env w2 (order_id ev) ch
                     in finish env w3 ev (if sync_ok then MOD_OK else SYNC_FAIL) t0
                          \<lparr>reason = None, info_changes = Some ch\<rparr>)))"

subsection \<open>The priority queue\<close>

text \<open>
  \<open>@dataclass(order=True)\<close> compares two requests as the tuples of their fields in the order
  of declaration, \<open>sort_index\<close> first. A tuple comparison finds the first position where the
  two differ and compares there; comparing \<open>None\<close> with a value raises \<open>TypeError\<close>.
\<close>

definition opt_lt :: "'a::ord option \<Rightarrow> 'a option \<Rightarrow> error + bool" where
  "opt_lt a b = (case (a, b) of (Some x, Some y) \<Rightarrow> Inr (x < y) | _ \<Rightarrow> Inl TypeError)"

definition pair_lt :: "int \<times> int \<Rightarrow> int \<times> int \<Rightarrow> bool" where
  "pair_lt a b = (if fst a \<noteq> fst b then fst a < fst b else snd a < snd b)"

definition ModEvent_lt :: "ModEvent \<Rightarrow> ModEvent \<Rightarrow> error + bool" where
  "ModEvent_lt a b =
     (if sort_index a \<noteq> sort_index b then Inr (pair_lt (sort_index a) (sort_index b))
      else if urgent a \<noteq> urgent b then Inr (urgent a < urgent b)
      else if order_id a \<noteq> order_id b then Inr (order_id a < order_id b)
      else if new_client_name a \<noteq> new_client_name b
        then opt_lt (new_client_name a) (new_client_name b)
      else if new_product a \<noteq> new_product b then opt_lt (new_product a) (new_product b)
      else if new_size a \<noteq> new_size b then opt_lt (new_size a) (new_size b)
      else if new_qty a \<noteq> new_qty b then opt_lt (new_qty a) (new_qty b)
      else if new_payment_method a \<noteq> new_payment_method b
        then opt_lt (new_payment_method a) (new_payment_method b)
      else if req_id a \<noteq> req_id b then Inr (req_id a < req_id b)
      else Inr (requested_at a < requested_at b))"

text \<open>
  \<open>queue.PriorityQueue\<close> keeps its entries in a list that \<open>heapq\<close> maintains as a binary
  heap: \<open>put\<close> is \<open>heappush\<close> and \<open>get\<close> is \<open>heappop\<close>. The two functions follow the
  \<open>heapq\<close> of CPython, which is library code: the item at \<open>pos\<close> has its parent at
  \<open>(pos - 1) >> 1\<close> and its children at \<open>2*pos + 1\<close> and \<open>2*pos + 2\<close>. A comparison that
  raises ends the operation with the exception; the list it leaves is not modelled.
\<close>

definition parent :: "nat \<Rightarrow> nat" where
  "parent pos = (pos - 1) div 2"

definition exchange :: "'a list \<Rightarrow> nat \<Rightarrow> nat \<Rightarrow> 'a list" where
  "exchange h i j = h[i := h ! j, j := h ! i]"

text \<open>\<open>_siftdown\<close>: the item at \<open>pos\<close> moves towards the root while it is less than its
  parent.\<close>

function siftdown :: "ModEvent list \<Rightarrow> nat \<Rightarrow> nat \<Rightarrow> error + ModEvent list" where
  "siftdown h startpos pos =
     (if startpos < pos then
        (case ModEvent_lt (h ! pos) (h ! parent pos) of
           Inl e \<Rightarrow> Inl e
         | Inr smaller \<Rightarrow>
             if smaller then siftdown (exchange h pos (parent pos)) startpos (parent pos)
             else Inr h)
      else Inr h)"
  by pat_completeness auto
termination
  by (relation "measure (\<lambda>(h, startpos, pos). pos)") (auto simp: parent_def)

declare siftdown.simps [simp del]

text \<open>The first loop of \<open>_siftup\<close>: the item at \<open>pos\<close> changes place with its smaller child
  until it is at a leaf; the result is the list and the position of the leaf.\<close>

function bubble :: "ModEvent list \<Rightarrow> nat \<Rightarrow> error + ModEvent list \<times> nat" where
  "bubble h pos =
     (if 2 * pos + 1 < length h then
        (if 2 * pos + 2 < length h then
           (case ModEvent_lt (h ! (2 * pos + 1)) (h ! (2 * pos + 2)) of
              Inl e \<Rightarrow> Inl e
            | Inr smaller \<Rightarrow>
                if smaller then bubble (exchange h pos (2 * pos + 1)) (2 * pos + 1)
                else bubble (exchange h pos (2 * pos + 2)) (2 * pos + 2))
         else bubble (exchange h pos (2 * pos + 1)) (2 * pos + 1))
      else Inr (h, pos))"
  by pat_completeness auto
termination
  by (relation "measure (\<lambda>(h, pos). length h - pos)") (auto simp: exchange_def)

declare bubble.simps [simp del]

text \<open>\<open>_siftup\<close>: down to a leaf, then \<open>_siftdown\<close> from the leaf back towards \<open>pos\<close>.\<close>

definition siftup :: "ModEvent list \<Rightarrow> nat \<Rightarrow> error + ModEvent list" where
  "siftup h pos =
     (case bubble h pos of
        Inl e \<Rightarrow> Inl e
      | Inr (h', leaf) \<Rightarrow> siftdown h' pos leaf)"

definition heappush :: "ModEvent list \<Rightarrow> ModEvent \<Rightarrow> error + ModEvent list" where
  "heappush h item = siftdown (h @ [item]) 0 (length h)"

definition heappop :: "ModEvent list \<Rightarrow> error + ModEvent \<times> ModEvent list" where
  "heappop h =
     (if h = [] then Inl IndexError
      else
        (let lastelt = last h; h' = butlast h
         in if h' \<noteq> [] then
              (case siftup (h'[0 := lastelt]) 0 of
                 Inl e \<Rightarrow> Inl e
               | Inr h'' \<Rightarrow> Inr (h' ! 0, h''))
            else Inr (lastelt, [])))"

text \<open>\<open>PriorityQueue.put\<close> and \<open>get\<close>; \<open>get\<close> on a queue that stays empty is \<open>queue.Empty\<close>.\<close>

definition pq_put :: "ModEvent list \<Rightarrow> ModEvent \<Rightarrow> error + ModEvent list" where
  "pq_put q ev = heappush q ev"

definition pq_get :: "ModEvent list \<Rightarrow> error + ModEvent \<times> ModEvent list" where
  "pq_get q = (if q = [] then Inl Empty else heappop q)"

text \<open>The states of a queue: empty at first, then after each \<open>put\<close> and each \<open>get\<close> that
  returned.\<close>

inductive reachable :: "ModEvent list \<Rightarrow> bool" where
  empty: "reachable []"
| put: "reachable q \<Longrightarrow> pq_put q ev = Inr q' \<Longrightarrow> reachable q'"
| get: "reachable q \<Longrightarrow> pq_get q = Inr (m, q') \<Longrightarrow> reachable q'"

text \<open>
  \<open>_worker_loop\<close> on the requests handed to it in the order they are popped: the stop
  signal (\<open>order_id == -1\<close>) ends the loop, an exception leaves it.
\<close>

fun worker_loop :: "env \<Rightarrow> world \<Rightarrow> ModEvent list \<Rightarrow> error option \<times> world" where
  "worker_loop env w [] = (None, w)"
| "worker_loop env w (ev # evs) =
     (if order_id ev = - 1 then (None, w)
      else (case process_event env w ev of
              (Some e, w') \<Rightarrow> (Some e, w')
            | (None, w') \<Rightarrow> worker_loop env w' evs))"

subsection \<open>Properties stated below\<close>

text \<open>The total of the metrics is the sum of the four counters.\<close>

definition metrics_inv :: "metrics \<Rightarrow> bool" where
  "metrics_inv m =
     (processed m = n_MOD_OK m + n_TIME_EXPIRED m + n_SYNC_FAIL m + n_MOD_FAIL m)"

text \<open>The row after the values of a change set are written over it.\<close>

definition written :: "order \<Rightarrow> changes \<Rightarrow> order" where
  "written row ch =
     row\<lparr>client_name := (case c_client_name ch of None \<Rightarrow> client_name row | Some v \<Rightarrow> v),
         product_col := (case c_product ch of None \<Rightarrow> product_col row | Some v \<Rightarrow> v),
         size_col := (case c_size ch of None \<Rightarrow> size_col row | Some v \<Rightarrow> v),
         qty := (case c_qty ch of None \<Rightarrow> qty row | Some v \<Rightarrow> v),
         payment_method :=
           (case c_payment_method ch of None \<Rightarrow> payment_method row | Some v \<Rightarrow> v)\<rparr>"

text \<open>A change set that holds no value for any of the five editable columns.\<close>

definition no_fields :: "changes \<Rightarrow> bool" where
  "no_fields ch =
     (c_client_name ch = None \<and> c_product ch = None \<and> c_size ch = None
      \<and> c_qty ch = None \<and> c_payment_method ch = None)"

text \<open>The row looked up, if there is one, has a \<open>confirmed_at\<close> that is null, empty or
  text the date parser accepts.\<close>

definition parses :: "(str \<Rightarrow> error + real) \<Rightarrow> order option \<Rightarrow> bool" where
  "parses parse r =
     (case r of
        None \<Rightarrow> True
      | Some row \<Rightarrow>
          (case confirmed_at row of
             None \<Rightarrow> True
           | Some s \<Rightarrow> s = [] \<or> (case parse s of Inl e \<Rightarrow> False | Inr t \<Rightarrow> True)))"

text \<open>
  The values of a change set are ones the \<open>UPDATE\<close> takes: every text is one \<open>sqlite3\<close>
  binds, and the quantity, if there is one, is positive and below \<open>2^63\<close>.
\<close>

definition bindable :: "(str \<Rightarrow> error option) \<Rightarrow> str option \<Rightarrow> bool" where
  "bindable refuses v = (case v of None \<Rightarrow> True | Some s \<Rightarrow> refuses s = None)"

definition accepted :: "(str \<Rightarrow> error option) \<Rightarrow> changes \<Rightarrow> bool" where
  "accepted refuses ch =
     (bindable refuses (c_client_name ch) \<and> bindable refuses (c_product ch)
      \<and> bindable refuses (c_size ch)
      \<and> (case c_qty ch of None \<Rightarrow> True | Some q \<Rightarrow> 0 < q \<and> q < 2 ^ 63)
      \<and> bindable refuses (c_payment_method ch))"

text \<open>The database is not busy at any of the next \<open>n\<close> calls of the repository.\<close>

definition db_free :: "env \<Rightarrow> world \<Rightarrow> nat \<Rightarrow> bool" where
  "db_free env w n = (\<forall>k < n. \<not> db_busy env (calls w + k))"

text \<open>Readings of a trace: the codes of its log lines, its sleeps, its calls of the store.\<close>

fun outcomes :: "effect list \<Rightarrow> code list" where
  "outcomes [] = []"
| "outcomes (LogInfo l # tr) = log_code l # outcomes tr"
| "outcomes (e # tr) = outcomes tr"

fun sleeps :: "effect list \<Rightarrow> real list" where
  "sleeps [] = []"
| "sleeps (Sleep b # tr) = b # sleeps tr"
| "sleeps (e # tr) = sleeps tr"

fun is_store_access :: "effect \<Rightarrow> bool" where
  "is_store_access (Apply oid ch) = True"
| "is_store_access (Fetch oid) = True"
| "is_store_access e = False"

text \<open>The log line \<open>_finish\<close> writes for a request, a code, a latency and the \<open>info\<close>.\<close>

definition log_line :: "ModEvent \<Rightarrow> code \<Rightarrow> real \<Rightarrow> info \<Rightarrow> log_obj" where
  "log_line ev c ms details =
     \<lparr>tx_id = req_id ev, log_order_id = order_id ev, log_urgent = urgent ev,
      log_requested_at = requested_at ev, log_code = c, latency_ms = ms, log_info = details\<rparr>"

text \<open>The quantity of the sort key: the stated quantity when positive, 9999 otherwise.\<close>

definition effective_qty :: "ModEvent \<Rightarrow> int" where
  "effective_qty ev = snd (sort_index ev)"

text \<open>
  The tuple the generated comparison of the dataclass works on: the fields in the order of
  their declaration. Tuples are ordered lexicographically, \<open>False\<close> before \<open>True\<close>, strings
  by code points; between two optional fields an absent value is put before a present one
  (the comparison of the source raises there, so the queue never relies on it).
\<close>

type_synonym key =
  "(int \<times> int) \<times> bool \<times> int \<times> str option \<times> str option \<times> str option \<times> int option
    \<times> str option \<times> str \<times> str"

definition key :: "ModEvent \<Rightarrow> key" where
  "key ev =
     (sort_index ev, urgent ev, order_id ev, new_client_name ev, new_product ev, new_size ev,
      new_qty ev, new_payment_method ev, req_id ev, requested_at ev)"

text \<open>The heap property of the list, and the property with one position left out: while
  \<open>siftdown\<close> moves the item at \<open>pos\<close> up, and while \<open>bubble\<close> moves the hole at \<open>pos\<close>
  down.\<close>

definition heap_inv :: "ModEvent list \<Rightarrow> bool" where
  "heap_inv h = (\<forall>i. 0 < i \<and> i < length h \<longrightarrow> key (h ! parent i) \<le> key (h ! i))"

definition heap_except :: "ModEvent list \<Rightarrow> nat \<Rightarrow> bool" where
  "heap_except h pos =
     ((\<forall>i. 0 < i \<and> i < length h \<and> i \<noteq> pos \<longrightarrow> key (h ! parent i) \<le> key (h ! i)) \<and>
      (\<forall>c. 0 < c \<and> c < length h \<and> parent c = pos \<and> 0 < pos
            \<longrightarrow> key (h ! parent pos) \<le> key (h ! c)))"

definition bubble_inv :: "ModEvent list \<Rightarrow> nat \<Rightarrow> bool" where
  "bubble_inv h pos =
     ((\<forall>i. 0 < i \<and> i < length h \<and> i \<noteq> pos \<and> parent i \<noteq> pos
            \<longrightarrow> key (h ! parent i) \<le> key (h ! i)) \<and>
      (\<forall>c. 0 < c \<and> c < length h \<and> parent c = pos \<and> 0 < pos
            \<longrightarrow> key (h ! parent pos) \<le> key (h ! c)))"

text \<open>\<open>pops q ms q'\<close>: successive calls of \<open>get\<close> on the queue \<open>q\<close>, with no \<open>put\<close> in
  between, return the requests \<open>ms\<close> in this order and leave \<open>q'\<close>.\<close>

inductive pops :: "ModEvent list \<Rightarrow> ModEvent list \<Rightarrow> ModEvent list \<Rightarrow> bool" where
  stop: "pops q [] q"
| step: "pq_get q = Inr (m, q1) \<Longrightarrow> pops q1 ms q' \<Longrightarrow> pops q (m # ms) q'"

subsection \<open>Sample data\<close>

text \<open>
  Order 7, confirmed at the instant the parser maps to 1000 seconds; a clock that starts
  one minute later and advances a second per reading; a database that is never busy and
  binds every text; callbacks that do not raise; a request that sets the quantity to 3.
\<close>

definition sample_row :: order where
  "sample_row =
     \<lparr>id_col = 7, client_name = lit ''Ana'', product_col = lit ''pepperoni'',
      size_col = lit ''mediana'', qty = 1, payment_method = lit ''efectivo'',
      state = lit ''confirmed'', created_at = lit ''2024-01-01 11:59:00'',
      confirmed_at = Some (lit ''2024-01-01 12:00:00'')\<rparr>"

definition sample_parse :: "str \<Rightarrow> error + real" where
  "sample_parse s = (if s = lit ''2024-01-01 12:00:00'' then Inr 1000 else Inl ValueError)"

definition sample_env :: env where
  "sample_env =
     \<lparr>clock = (\<lambda>n. 1060 + real n), strptime = sample_parse, text_error = (\<lambda>s. None),
      db_busy = (\<lambda>n. False),
      kitchen_raises = (\<lambda>oid ch. False), client_raises = (\<lambda>oid ch. False),
      ui_raises = (\<lambda>m. False)\<rparr>"

definition sample_world :: world where
  "sample_world =
     \<lparr>db = [7 \<mapsto> sample_row], stats = metrics0, tick = 0, calls = 0, trace = []\<rparr>"

definition sample_event :: ModEvent where
  "sample_event =
     \<lparr>urgent = False, order_id = 7, new_client_name = None, new_product = None,
      new_size = None, new_qty = Some 3, new_payment_method = None,
      req_id = lit ''tx-1'', requested_at = lit ''2024-01-01 12:01:00''\<rparr>"

definition empty_changes :: changes where
  "empty_changes =
     \<lparr>c_client_name = None, c_product = None, c_size = None, c_qty = None,
      c_payment_method = None\<rparr>"

text \<open>The same order in state \<open>cooking\<close>; the same order with a \<open>confirmed_at\<close> that is not
  in the format; an observer of the metrics that raises; a database that is busy at the
  first call; a request for the quantity \<open>2^63\<close>.\<close>

definition cooking_world :: world where
  "cooking_world = sample_world\<lparr>db := [7 \<mapsto> sample_row\<lparr>state := lit ''cooking''\<rparr>]\<rparr>"

definition garbage_world :: world where
  "garbage_world =
     sample_world\<lparr>db := [7 \<mapsto> sample_row\<lparr>confirmed_at := Some (lit ''yesterday'')\<rparr>]\<rparr>"

definition failing_ui_env :: env where
  "failing_ui_env = sample_env\<lparr>ui_raises := (\<lambda>m. True)\<rparr>"

definition busy_env :: env where
  "busy_env = sample_env\<lparr>db_busy := (\<lambda>n. n = 0)\<rparr>"

definition huge_event :: ModEvent where
  "huge_event = sample_event\<lparr>new_qty := Some (2 ^ 63)\<rparr>"

text \<open>A clock that reaches the end of the window at its first reading and is past it from
  the second on, with and without a busy database; a kitchen notification that raises; a
  request whose product carries a leading space, one whose product carries a leading
  no-break space (U+00A0); the request for a product that is not sold.\<close>

definition late_env :: env where
  "late_env = sample_env\<lparr>clock := (\<lambda>n. 1300 + real n)\<rparr>"

definition late_busy_env :: env where
  "late_busy_env = late_env\<lparr>db_busy := (\<lambda>n. n = 0)\<rparr>"

definition failing_kitchen_env :: env where
  "failing_kitchen_env = sample_env\<lparr>kitchen_raises := (\<lambda>oid ch. True)\<rparr>"

definition spaced_event :: ModEvent where
  "spaced_event = sample_event\<lparr>new_product := Some (lit '' pepperoni'')\<rparr>"

definition nbsp_event :: ModEvent where
  "nbsp_event = sample_event\<lparr>new_product := Some (160 # lit ''pepperoni'')\<rparr>"

definition vegetarian_event :: ModEvent where
  "vegetarian_event = sample_event\<lparr>new_product := Some (lit ''vegetarian'')\<rparr>"

text \<open>
  Requests for the queue: an urgent one with quantity 5 and a normal one with quantity 2
  for order 9; a normal one with quantity 2 for order 3; one without quantity and one with
  quantity 20000; one that differs from the sample request by a client name.
\<close>

definition urgent_event :: ModEvent where
  "urgent_event =
     sample_event\<lparr>urgent := True, order_id := 9, new_qty := Some 5, req_id := lit ''tx-2''\<rparr>"

definition normal_event :: ModEvent where
  "normal_event = sample_event\<lparr>order_id := 9, new_qty := Some 2, req_id := lit ''tx-3''\<rparr>"

definition later_event :: ModEvent where
  "later_event = sample_event\<lparr>order_id := 3, new_qty := Some 2, req_id := lit ''tx-4''\<rparr>"

definition unquantified_event :: ModEvent where
  "unquantified_event = sample_event\<lparr>new_qty := None, req_id := lit ''tx-5''\<rparr>"

definition bulk_event :: ModEvent where
  "bulk_event = sample_event\<lparr>new_qty := Some 20000, req_id := lit ''tx-6''\<rparr>"

definition named_event :: ModEvent where
  "named_event = sample_event\<lparr>new_client_name := Some (lit ''Ana''), req_id := lit ''tx-7''\<rparr>"

section \<open>Basic facts\<close>

lemma emit_simps [simp]:
  "stats (emit es w) = stats w"
  "db (emit es w) = db w"
  "tick (emit es w) = tick w"
  "calls (emit es w) = calls w"
  "trace (emit es w) = trace w @ es"
  by (simp_all add: emit_def)

lemma time_time_simps [simp]:
  "fst (time_time env w) = clock env (tick w)"
  "stats (snd (time_time env w)) = stats w"
  "db (snd (time_time env w)) = db w"
  "trace (snd (time_time env w)) = trace w"
  "calls (snd (time_time env w)) = calls w"
  "tick (snd (time_time env w)) = Suc (tick w)"
  by (simp_all add: time_time_def)

lemma call_apply_simps:
  "fst (call_apply env w oid ch)
     = fst (apply_modification_atomic (strptime env) (text_error env) (db_busy env (calls w))
              (clock env (tick w)) (db w) oid ch)"
  "db (snd (call_apply env w oid ch))
     = snd (apply_modification_atomic (strptime env) (text_error env) (db_busy env (calls w))
              (clock env (tick w)) (db w) oid ch)"
  "stats (snd (call_apply env w oid ch)) = stats w"
  "calls (snd (call_apply env w oid ch)) = Suc (calls w)"
  "trace (snd (call_apply env w oid ch)) = trace w @ [Apply oid ch]"
  "tick (snd (call_apply env w oid ch))
     = (if reads_clock (strptime env) (db_busy env (calls w)) (db w) oid then Suc (tick w)
        else tick w)"
  by (simp_all add: call_apply_def Let_def split_beta)

lemma call_fetch_one_simps:
  "fst (call_fetch_one env w oid) = fetch_one (db_busy env (calls w)) (db w) oid"
  "db (snd (call_fetch_one env w oid)) = db w"
  "stats (snd (call_fetch_one env w oid)) = stats w"
  "calls (snd (call_fetch_one env w oid)) = Suc (calls w)"
  "tick (snd (call_fetch_one env w oid)) = tick w"
  "trace (snd (call_fetch_one env w oid)) = trace w @ [Fetch oid]"
  by (simp_all add: call_fetch_one_def Let_def)

lemma outcomes_append [simp]: "outcomes (xs @ ys) = outcomes xs @ outcomes ys"
  by (induction xs rule: outcomes.induct) simp_all

lemma sleeps_append [simp]: "sleeps (xs @ ys) = sleeps xs @ sleeps ys"
  by (induction xs rule: sleeps.induct) simp_all

lemma stats_retry_loop: "stats (snd (retry_loop env n b w oid ch)) = stats w"
proof (induction n arbitrary: b w)
  case 0
  show ?case by simp
next
  case (Suc n)
  show ?case
    by (simp add: Suc.IH Let_def split_beta call_apply_simps call_fetch_one_simps
        split: sum.split bool.split option.split)
qed

lemma outcomes_retry_loop:
  "outcomes (trace (snd (retry_loop env n b w oid ch))) = outcomes (trace w)"
proof (induction n arbitrary: b w)
  case 0
  show ?case by simp
next
  case (Suc n)
  show ?case
    by (simp add: Suc.IH Let_def split_beta call_apply_simps call_fetch_one_simps
        split: sum.split bool.split option.split)
qed

lemma stats_notify: "stats (snd (notify env w oid ch)) = stats w"
  by (simp add: notify_def Let_def)

lemma stats_finish:
  "stats (snd (finish env w ev c t0 d)) =
     record_outcome (stats w) c ((clock env (tick w) - t0) * 1000)"
  by (simp add: finish_def Let_def split_beta)

lemma record_outcome_counts:
  "processed (record_outcome m c ms) = processed m + 1"
  "counter c' (record_outcome m c ms) = counter c' m + (if c' = c then 1 else 0)"
  by (cases c; cases c'; simp add: record_outcome_def update_latency_def Let_def)+

lemma metrics_inv_record_outcome: "metrics_inv m \<Longrightarrow> metrics_inv (record_outcome m c ms)"
  by (cases c) (simp_all add: metrics_inv_def record_outcome_def update_latency_def Let_def)

text \<open>An iteration leaves the metrics alone or records one outcome.\<close>

lemma process_event_stats:
  "stats (snd (process_event env w ev)) = stats w \<or>
   (\<exists>c ms. stats (snd (process_event env w ev)) = record_outcome (stats w) c ms)"
proof (cases "validate (build_changes ev)")
  case (Some r)
  then show ?thesis
    by (auto simp: process_event_def Let_def split_beta stats_finish)
next
  case None
  obtain res w2 where rl: "retry_loop env MAX_RETRIES INITIAL_BACKOFF_S (snd (time_time env w))
      (order_id ev) (build_changes ev) = (res, w2)"
    by (cases "retry_loop env MAX_RETRIES INITIAL_BACKOFF_S (snd (time_time env w))
      (order_id ev) (build_changes ev)")
  have st: "stats w2 = stats w"
    using stats_retry_loop [of env MAX_RETRIES INITIAL_BACKOFF_S "snd (time_time env w)"
        "order_id ev" "build_changes ev"] rl by simp
  show ?thesis
  proof (cases res)
    case (Inl e)
    with None rl st show ?thesis
      by (simp add: process_event_def Let_def split_beta)
  next
    case (Inr t)
    obtain applied c r where t: "t = (applied, c, r)" by (cases t)
    obtain ok w3 where nt: "notify env w2 (order_id ev) (build_changes ev) = (ok, w3)"
      by (cases "notify env w2 (order_id ev) (build_changes ev)")
    have st3: "stats w3 = stats w"
      using stats_notify [of env w2 "order_id ev" "build_changes ev"] nt st by simp
    from None rl Inr t nt st st3 show ?thesis
      by (auto simp: process_event_def Let_def split_beta stats_finish)
  qed
qed

lemma metrics_inv_process_event:
  "metrics_inv (stats w) \<Longrightarrow> metrics_inv (stats (snd (process_event env w ev)))"
  using process_event_stats [of env w ev] by (auto simp: metrics_inv_record_outcome)

lemma metrics_inv_worker_loop:
  "metrics_inv (stats w) \<Longrightarrow> metrics_inv (stats (snd (worker_loop env w evs)))"
proof (induction evs arbitrary: w)
  case Nil
  then show ?case by simp
next
  case (Cons ev evs)
  show ?case
  proof (cases "process_event env w ev")
    case (Pair r w')
    have "metrics_inv (stats w')"
      using metrics_inv_process_event [OF Cons.prems, of env ev] Pair by simp
    with Pair Cons show ?thesis
      by (cases r) simp_all
  qed
qed

lemma fold_assign_build_sets: "fold assign (build_sets ch) row = written row ch"
  by (simp add: build_sets_def written_def split: option.split)

lemma build_sets_Nil: "build_sets ch = [] \<longleftrightarrow> no_fields ch"
  by (simp add: build_sets_def no_fields_def split: option.split)

lemma first_error_append:
  "first_error f (xs @ ys) = (case first_error f xs of Some e \<Rightarrow> Some e | None \<Rightarrow> first_error f ys)"
  by (induction xs) (simp_all split: option.split)

lemma sql_update_Inr:
  "sql_update refuses row sets = Inr row' \<Longrightarrow> row' = fold assign sets row"
  by (simp add: sql_update_def split: option.splits if_splits)

lemma sql_update_accepted:
  assumes "accepted refuses ch"
  shows "sql_update refuses row (build_sets ch) = Inr (written row ch)"
proof -
  have "first_error (bind refuses) (build_sets ch) = None"
    using assms
    by (cases "c_client_name ch"; cases "c_product ch"; cases "c_size ch"; cases "c_qty ch";
        cases "c_payment_method ch")
      (simp_all add: build_sets_def accepted_def bindable_def int64_def)
  moreover have "\<not> list_ex violates_check (build_sets ch)"
    using assms
    by (cases "c_client_name ch"; cases "c_product ch"; cases "c_size ch"; cases "c_qty ch";
        cases "c_payment_method ch")
      (simp_all add: build_sets_def accepted_def)
  ultimately show ?thesis
    by (simp add: sql_update_def fold_assign_build_sets)
qed

lemma apply_unchanged:
  "fst (apply_modification_atomic parse refuses busy now tbl oid ch) \<noteq> Inr True
     \<Longrightarrow> snd (apply_modification_atomic parse refuses busy now tbl oid ch) = tbl"
  by (auto simp: apply_modification_atomic_def split: option.splits sum.splits if_splits)

lemma apply_True_not_busy:
  "fst (apply_modification_atomic parse refuses busy now tbl oid ch) = Inr True \<Longrightarrow> \<not> busy"
  by (auto simp: apply_modification_atomic_def)

lemma apply_no_raise:
  assumes "parses parse (tbl oid)" and "accepted refuses ch" and "int64 oid"
  shows "\<not> isl (fst (apply_modification_atomic parse refuses False now tbl oid ch))"
  using assms
  by (auto simp: apply_modification_atomic_def parses_def truthy_def to_ts_def
      sql_update_accepted split: option.splits sum.splits)

lemma to_ts_no_raise:
  assumes "parses parse (Some row)"
  shows "\<not> isl (to_ts parse (confirmed_at row))"
  using assms by (auto simp: parses_def to_ts_def split: option.splits sum.splits)

lemmas sample_defs =
  sample_row_def sample_parse_def sample_env_def sample_world_def sample_event_def
  empty_changes_def metrics0_def

lemmas model_defs =
  build_changes_def stripped_def truthy_def to_ts_def EDIT_WINDOW_SECONDS_def
  locked_states_def build_sets_def sql_update_def int64_def lit_def

lemma sample_apply:
  "apply_modification_atomic sample_parse (\<lambda>s. None) False 1060 [7 \<mapsto> sample_row] 7
       (build_changes sample_event)
     = (Inr True, [7 \<mapsto> sample_row\<lparr>qty := 3\<rparr>])"
  by (simp add: apply_modification_atomic_def sample_defs model_defs)

lemma finish_simps:
  "fst (finish env w ev c t0 d)
     = (if ui_raises env (record_outcome (stats w) c ((clock env (tick w) - t0) * 1000))
        then Some CallbackError else None)"
  "db (snd (finish env w ev c t0 d)) = db w"
  "tick (snd (finish env w ev c t0 d)) = Suc (tick w)"
  "calls (snd (finish env w ev c t0 d)) = calls w"
  "trace (snd (finish env w ev c t0 d))
     = trace w @ [LogInfo (log_line ev c ((clock env (tick w) - t0) * 1000) d),
                  UiMetricsUpdate (record_outcome (stats w) c ((clock env (tick w) - t0) * 1000))]"
  by (simp_all add: finish_def Let_def split_beta log_line_def time_time_def)

text \<open>The window has passed at the first attempt.\<close>

lemma retry_loop_expired:
  assumes "db w oid = Some row" and "int64 oid"
    and "confirmed_at row = Some s" and "s \<noteq> []" and "strptime env s = Inr ts"
    and "\<not> db_busy env (calls w)" and "\<not> db_busy env (Suc (calls w))"
    and "clock env (tick w) - ts > EDIT_WINDOW_SECONDS"
    and "clock env (Suc (tick w)) - ts > EDIT_WINDOW_SECONDS"
  shows "retry_loop env (Suc n) b w oid ch
     = (Inr (False, TIME_EXPIRED, Some ''edit_window_passed''),
        w\<lparr>tick := Suc (Suc (tick w)), calls := Suc (Suc (calls w)),
          trace := trace w @ [Apply oid ch, Fetch oid]\<rparr>)"
  using assms
  by (simp add: call_apply_def call_fetch_one_def reads_clock_def apply_modification_atomic_def
      truthy_def to_ts_def fetch_one_def time_time_def emit_def)

lemma MAX_RETRIES_Suc: "MAX_RETRIES = Suc (Suc (Suc 0))"
  by (simp add: MAX_RETRIES_def eval_nat_numeral)

lemmas worker_defs =
  process_event_def MAX_RETRIES_Suc INITIAL_BACKOFF_S_def validate_def outside_def
  valid_products_def valid_sizes_def valid_pay_def call_apply_def call_fetch_one_def
  reads_clock_def apply_modification_atomic_def
  fetch_one_def notify_def finish_def time_time_def emit_def
  record_outcome_def update_latency_def Let_def

lemma db_free_Suc:
  assumes "db_free env w (2 * Suc n)"
  shows "\<not> db_busy env (calls w)" and "\<not> db_busy env (Suc (calls w))"
    and "calls w' = Suc (Suc (calls w)) \<Longrightarrow> db_free env w' (2 * n)"
proof -
  from assms have a: "\<And>k. k < 2 * Suc n \<Longrightarrow> \<not> db_busy env (calls w + k)"
    by (simp add: db_free_def)
  from a [of 0] show "\<not> db_busy env (calls w)" by simp
  from a [of 1] show "\<not> db_busy env (Suc (calls w))" by simp
  show "db_free env w' (2 * n)" if "calls w' = Suc (Suc (calls w))"
    unfolding db_free_def
  proof (intro allI impI)
    fix k assume "k < 2 * n"
    with a [of "k + 2"] that show "\<not> db_busy env (calls w' + k)" by simp
  qed
qed

lemma retry_loop_no_raise:
  assumes "accepted (text_error env) ch" and "int64 oid"
  shows "parses (strptime env) (db w oid) \<Longrightarrow> db_free env w (2 * n)
     \<Longrightarrow> \<not> isl (fst (retry_loop env n b w oid ch))"
proof (induction n arbitrary: b w)
  case 0
  show ?case by simp
next
  case (Suc n)
  let ?w1 = "snd (call_apply env w oid ch)"
  let ?w2 = "snd (call_fetch_one env ?w1 oid)"
  let ?w4 = "emit [Sleep b] (snd (time_time env ?w2))"
  note nb = db_free_Suc(1,2) [OF Suc.prems(2)]
  have "\<not> isl (fst (call_apply env w oid ch))"
    using apply_no_raise [of "strptime env" "db w" oid "text_error env" ch
        "clock env (tick w)"] Suc.prems(1) assms nb
    by (simp add: call_apply_simps)
  then obtain ok where ok: "fst (call_apply env w oid ch) = Inr ok"
    by (cases "fst (call_apply env w oid ch)") auto
  show ?case
  proof (cases ok)
    case True
    with ok show ?thesis
      by (simp add: Let_def split_beta)
  next
    case False
    have same: "db ?w1 = db w"
      using ok False
        apply_unchanged [of "strptime env" "text_error env" "db_busy env (calls w)"
          "clock env (tick w)" "db w" oid ch]
      by (simp add: call_apply_simps)
    have f: "fst (call_fetch_one env ?w1 oid) = Inr (db w oid)"
      using nb assms(2) by (simp add: call_fetch_one_simps call_apply_simps(4) fetch_one_def same)
    have IH: "\<not> isl (fst (retry_loop env n (b * 2) ?w4 oid ch))"
    proof (rule Suc.IH)
      show "parses (strptime env) (db ?w4 oid)"
        using Suc.prems(1) by (simp add: call_fetch_one_simps same)
      show "db_free env ?w4 (2 * n)"
        by (rule db_free_Suc(3) [OF Suc.prems(2)])
          (simp add: call_fetch_one_simps call_apply_simps)
    qed
    show ?thesis
    proof (cases "db w oid")
      case None
      with ok False f show ?thesis
        by (simp add: Let_def split_beta)
    next
      case (Some current)
      obtain ts where ts: "to_ts (strptime env) (confirmed_at current) = Inr ts"
        using to_ts_no_raise [of "strptime env" current] Suc.prems(1) Some
        by (cases "to_ts (strptime env) (confirmed_at current)") auto
      from ok False f Some ts IH show ?thesis
        by (simp add: Let_def split_beta split: option.split)
    qed
  qed
qed

lemma accepted_build_changes:
  "accepted refuses (build_changes ev) \<longleftrightarrow>
     bindable refuses (stripped (new_client_name ev)) \<and> bindable refuses (stripped (new_product ev))
     \<and> bindable refuses (stripped (new_size ev))
     \<and> (case new_qty ev of None \<Rightarrow> True | Some q \<Rightarrow> q < 2 ^ 63)
     \<and> bindable refuses (stripped (new_payment_method ev))"
  by (auto simp: accepted_def build_changes_def split: option.splits)

lemma process_event_invalid:
  assumes "validate (build_changes ev) = Some r"
  shows "process_event env w ev
     = finish env (snd (time_time env w)) ev MOD_FAIL (clock env (tick w))
         \<lparr>reason = Some r, info_changes = None\<rparr>"
  using assms by (simp add: process_event_def split_beta)

lemma process_event_raised:
  assumes "validate (build_changes ev) = None"
    and "retry_loop env MAX_RETRIES INITIAL_BACKOFF_S (snd (time_time env w)) (order_id ev)
           (build_changes ev) = (Inl e, w2)"
  shows "process_event env w ev = (Some e, w2)"
  using assms by (simp add: process_event_def split_beta)

lemma process_event_rejected:
  assumes "validate (build_changes ev) = None"
    and "retry_loop env MAX_RETRIES INITIAL_BACKOFF_S (snd (time_time env w)) (order_id ev)
           (build_changes ev) = (Inr (False, c, r), w2)"
  shows "process_event env w ev
     = finish env w2 ev (if c \<noteq> TIME_EXPIRED then MOD_FAIL else c) (clock env (tick w))
         \<lparr>reason = r, info_changes = None\<rparr>"
  using assms by (simp add: process_event_def split_beta)

lemma process_event_applied:
  assumes "validate (build_changes ev) = None"
    and "retry_loop env MAX_RETRIES INITIAL_BACKOFF_S (snd (time_time env w)) (order_id ev)
           (build_changes ev) = (Inr (True, c, r), w2)"
  shows "process_event env w ev
     = finish env (snd (notify env w2 (order_id ev) (build_changes ev))) ev
         (if fst (notify env w2 (order_id ev) (build_changes ev)) then MOD_OK else SYNC_FAIL)
         (clock env (tick w)) \<lparr>reason = None, info_changes = Some (build_changes ev)\<rparr>"
  using assms by (simp add: process_event_def split_beta Let_def)

lemma notify_simps:
  "fst (notify env w oid ch) = (\<not> kitchen_raises env oid ch \<and> \<not> client_raises env oid ch)"
  "db (snd (notify env w oid ch)) = db w"
  "tick (snd (notify env w oid ch)) = tick w"
  "calls (snd (notify env w oid ch)) = calls w"
  "trace (snd (notify env w oid ch)) = trace w @ [KitchenNotify oid ch, ClientNotify oid ch]"
  by (simp_all add: notify_def Let_def)

lemma finish_outcome:
  "\<exists>ms. outcomes (trace (snd (finish env w ev c t0 d))) = outcomes (trace w) @ [c]
        \<and> stats (snd (finish env w ev c t0 d)) = record_outcome (stats w) c ms
        \<and> fst (finish env w ev c t0 d)
            = (if ui_raises env (record_outcome (stats w) c ms) then Some CallbackError
               else None)"
  by (rule exI [of _ "(clock env (tick w) - t0) * 1000"])
    (simp add: finish_simps stats_finish log_line_def)

text \<open>A successful loop leaves the table that one successful update of the table it
  started with produces.\<close>

lemma retry_loop_applied:
  assumes "retry_loop env n b w oid ch = (Inr (True, c, r), w2)"
  shows "\<exists>k. apply_modification_atomic (strptime env) (text_error env) False (clock env k)
               (db w) oid ch = (Inr True, db w2)"
  using assms
proof (induction n arbitrary: b w)
  case 0
  then show ?case by simp
next
  case (Suc n)
  let ?A = "apply_modification_atomic (strptime env) (text_error env) (db_busy env (calls w))
              (clock env (tick w)) (db w) oid ch"
  let ?w1 = "snd (call_apply env w oid ch)"
  let ?w2 = "snd (call_fetch_one env ?w1 oid)"
  let ?w4 = "emit [Sleep b] (snd (time_time env ?w2))"
  show ?case
  proof (cases "fst ?A = Inr True")
    case True
    then have nb: "\<not> db_busy env (calls w)"
      by (rule apply_True_not_busy)
    from True Suc.prems have "w2 = ?w1"
      by (simp add: Let_def split_beta call_apply_simps)
    then have "db w2 = snd ?A"
      by (simp add: call_apply_simps)
    with True have "?A = (Inr True, db w2)"
      by (metis prod.collapse)
    with nb show ?thesis by auto
  next
    case False
    then have same: "db ?w1 = db w"
      using apply_unchanged [of "strptime env" "text_error env" "db_busy env (calls w)"
          "clock env (tick w)" "db w" oid ch]
      by (simp add: call_apply_simps)
    from False obtain e where "fst ?A = Inl e \<or> fst ?A = Inr False"
      by (cases "fst ?A") auto
    then show ?thesis
    proof
      assume "fst ?A = Inl e"
      with Suc.prems show ?thesis
        by (simp add: Let_def split_beta call_apply_simps)
    next
      assume f: "fst ?A = Inr False"
      from Suc.prems f
      have "retry_loop env n (b * 2) ?w4 oid ch = (Inr (True, c, r), w2)"
        by (simp add: Let_def split_beta call_apply_simps
            split: option.splits if_splits sum.splits)
      from Suc.IH [OF this] same show ?thesis
        by (simp add: call_fetch_one_simps)
    qed
  qed
qed

subsection \<open>The heap of the queue\<close>

lemma opt_lt_True: "opt_lt a b = Inr True \<Longrightarrow> a < b"
  by (auto simp: opt_lt_def split: option.splits)

lemma opt_lt_False: "opt_lt a b = Inr False \<Longrightarrow> b \<le> (a :: 'a::linorder option)"
  by (auto simp: opt_lt_def split: option.splits)

lemma pair_lt_iff: "pair_lt a b \<longleftrightarrow> a < b"
  by (cases a; cases b) (auto simp: pair_lt_def)

lemma lt_True_key: "ModEvent_lt a b = Inr True \<Longrightarrow> key a < key b"
  unfolding ModEvent_lt_def key_def
  by (auto simp: pair_lt_iff split: if_splits dest!: opt_lt_True)

lemma lt_False_key: "ModEvent_lt a b = Inr False \<Longrightarrow> key b \<le> key a"
  unfolding ModEvent_lt_def key_def
  by (auto simp: pair_lt_iff not_less split: if_splits dest!: opt_lt_False)

lemma parent_less: "0 < i \<Longrightarrow> parent i < i"
  by (simp add: parent_def)

lemma parent_eq_iff: "0 < c \<Longrightarrow> parent c = p \<longleftrightarrow> c = 2 * p + 1 \<or> c = 2 * p + 2"
  unfolding parent_def by presburger

lemma length_exchange [simp]: "length (exchange h i j) = length h"
  by (simp add: exchange_def)

lemma nth_exchange:
  "i < length h \<Longrightarrow> j < length h \<Longrightarrow>
     exchange h i j ! k = (if k = j then h ! i else if k = i then h ! j else h ! k)"
  by (simp add: exchange_def nth_list_update)

lemma mset_exchange: "i < length h \<Longrightarrow> j < length h \<Longrightarrow> mset (exchange h i j) = mset h"
  unfolding exchange_def by (rule mset_swap)

lemma heap_except_0: "heap_except h 0 \<Longrightarrow> heap_inv h"
  by (simp add: heap_except_def heap_inv_def)

lemma heap_except_done:
  assumes "heap_except h pos" and "key (h ! parent pos) \<le> key (h ! pos)"
  shows "heap_inv h"
  unfolding heap_inv_def
proof (intro allI impI)
  fix i assume "0 < i \<and> i < length h"
  with assms show "key (h ! parent i) \<le> key (h ! i)"
    by (cases "i = pos") (auto simp: heap_except_def)
qed

text \<open>One step of \<open>siftdown\<close>.\<close>

lemma heap_except_up:
  assumes he: "heap_except h pos" and pos: "0 < pos" "pos < length h"
    and le: "key (h ! pos) \<le> key (h ! parent pos)"
  shows "heap_except (exchange h pos (parent pos)) (parent pos)"
proof -
  let ?p = "parent pos"
  let ?h = "exchange h pos ?p"
  have p: "?p < pos" "?p < length h"
    using pos parent_less [of pos] by simp_all
  have nth: "?h ! k = (if k = ?p then h ! pos else if k = pos then h ! ?p else h ! k)" for k
    using nth_exchange [of pos h ?p k] pos p by simp
  from he have c1: "\<And>i. 0 < i \<Longrightarrow> i < length h \<Longrightarrow> i \<noteq> pos \<Longrightarrow> key (h ! parent i) \<le> key (h ! i)"
    and c2: "\<And>c. 0 < c \<Longrightarrow> c < length h \<Longrightarrow> parent c = pos \<Longrightarrow> key (h ! ?p) \<le> key (h ! c)"
    using pos by (auto simp: heap_except_def)
  show ?thesis
    unfolding heap_except_def
  proof (intro conjI allI impI)
    fix i assume a: "0 < i \<and> i < length ?h \<and> i \<noteq> ?p"
    then have i: "0 < i" "i < length h" "i \<noteq> ?p" by simp_all
    have pi: "parent i < i" using i parent_less by simp
    show "key (?h ! parent i) \<le> key (?h ! i)"
    proof (cases "i = pos")
      case True
      with le p show ?thesis by (simp add: nth)
    next
      case False
      note ipos = False
      show ?thesis
      proof (cases "parent i = pos")
        case True
        with c2 [of i] i ipos pi p show ?thesis by (simp add: nth)
      next
        case False
        note npos = False
        show ?thesis
        proof (cases "parent i = ?p")
          case True
          have "key (h ! pos) \<le> key (h ! ?p)" by (rule le)
          also have "key (h ! ?p) \<le> key (h ! i)" using c1 [of i] i ipos True by simp
          finally show ?thesis using True i ipos by (simp add: nth)
        next
          case False
          with c1 [of i] i ipos npos show ?thesis by (simp add: nth)
        qed
      qed
    qed
  next
    fix c assume a: "0 < c \<and> c < length ?h \<and> parent c = ?p \<and> 0 < ?p"
    then have c: "0 < c" "c < length h" "parent c = ?p" "0 < ?p" by simp_all
    have pp: "parent ?p < ?p" using c parent_less by simp
    have cp: "?p < c" using c parent_less [of c] by simp
    have g: "key (h ! parent ?p) \<le> key (h ! ?p)"
      using c1 [of ?p] c p by simp
    have "key (h ! parent ?p) \<le> key (?h ! c)"
    proof (cases "c = pos")
      case True
      with g cp show ?thesis by (simp add: nth)
    next
      case False
      have "key (h ! ?p) \<le> key (h ! c)" using c1 [of c] c False by simp
      with g have "key (h ! parent ?p) \<le> key (h ! c)" by (rule order_trans)
      with False cp show ?thesis by (simp add: nth)
    qed
    moreover have "?h ! parent ?p = h ! parent ?p"
      using pp p by (simp add: nth)
    ultimately show "key (?h ! parent ?p) \<le> key (?h ! c)" by simp
  qed
qed

lemma siftdown_heap:
  "siftdown h s pos = Inr h' \<Longrightarrow> s = 0 \<Longrightarrow> pos < length h \<Longrightarrow> heap_except h pos
     \<Longrightarrow> heap_inv h' \<and> mset h' = mset h"
proof (induction h s pos rule: siftdown.induct)
  case (1 h s pos)
  show ?case
  proof (cases "s < pos")
    case False
    with "1.prems"(1) have "h' = h"
      by (simp add: siftdown.simps [of h s pos])
    moreover from False "1.prems"(2) have "pos = 0"
      by simp
    ultimately show ?thesis
      using "1.prems"(4) by (simp add: heap_except_0)
  next
    case True
    with "1.prems" have pos: "0 < pos" by simp
    from True "1.prems"(1) obtain r where r: "ModEvent_lt (h ! pos) (h ! parent pos) = Inr r"
      by (cases "ModEvent_lt (h ! pos) (h ! parent pos)")
        (simp_all add: siftdown.simps [of h s pos])
    show ?thesis
    proof (cases r)
      case True
      note less = True
      from r less have "key (h ! pos) < key (h ! parent pos)" by (simp add: lt_True_key)
      then have le: "key (h ! pos) \<le> key (h ! parent pos)" by simp
      have next_eq: "siftdown (exchange h pos (parent pos)) s (parent pos) = Inr h'"
        using "1.prems"(1) \<open>s < pos\<close> r less by (simp add: siftdown.simps [of h s pos])
      have "heap_inv h' \<and> mset h' = mset (exchange h pos (parent pos))"
      proof (rule "1.IH" [OF \<open>s < pos\<close> r less next_eq])
        show "s = 0" by (rule "1.prems")
        show "parent pos < length (exchange h pos (parent pos))"
          using parent_less [OF pos] "1.prems" by simp
        show "heap_except (exchange h pos (parent pos)) (parent pos)"
          by (rule heap_except_up [OF "1.prems"(4) pos "1.prems"(3) le])
      qed
      moreover have "mset (exchange h pos (parent pos)) = mset h"
        using parent_less [OF pos] "1.prems"(3) by (simp add: mset_exchange)
      ultimately show ?thesis by simp
    next
      case False
      with r have "key (h ! parent pos) \<le> key (h ! pos)" by (simp add: lt_False_key)
      with "1.prems"(4) have "heap_inv h" by (rule heap_except_done)
      moreover from "1.prems"(1) \<open>s < pos\<close> r False have "h' = h"
        by (simp add: siftdown.simps [of h s pos])
      ultimately show ?thesis by simp
    qed
  qed
qed

text \<open>One step of \<open>bubble\<close>: \<open>c\<close> is a child of \<open>pos\<close> that is not above the other child.\<close>

lemma bubble_inv_down:
  assumes bi: "bubble_inv h pos" and c: "c = 2 * pos + 1 \<or> c = 2 * pos + 2" "c < length h"
    and least: "\<And>d. d = 2 * pos + 1 \<or> d = 2 * pos + 2 \<Longrightarrow> d < length h
                  \<Longrightarrow> key (h ! c) \<le> key (h ! d)"
  shows "bubble_inv (exchange h pos c) c"
proof -
  let ?h = "exchange h pos c"
  have pc: "pos < c" "pos < length h" "0 < c" "parent c = pos"
    using c by (auto simp: parent_def)
  have nth: "?h ! k = (if k = c then h ! pos else if k = pos then h ! c else h ! k)" for k
    using nth_exchange [of pos h c k] c pc by simp
  from bi have c1: "\<And>i. 0 < i \<Longrightarrow> i < length h \<Longrightarrow> i \<noteq> pos \<Longrightarrow> parent i \<noteq> pos
        \<Longrightarrow> key (h ! parent i) \<le> key (h ! i)"
    and c2: "\<And>d. 0 < d \<Longrightarrow> d < length h \<Longrightarrow> parent d = pos \<Longrightarrow> 0 < pos
        \<Longrightarrow> key (h ! parent pos) \<le> key (h ! d)"
    by (auto simp: bubble_inv_def)
  show ?thesis
    unfolding bubble_inv_def
  proof (intro conjI allI impI)
    fix i assume "0 < i \<and> i < length ?h \<and> i \<noteq> c \<and> parent i \<noteq> c"
    then have i: "0 < i" "i < length h" "i \<noteq> c" "parent i \<noteq> c" by simp_all
    have pi: "parent i < i" using i parent_less by simp
    show "key (?h ! parent i) \<le> key (?h ! i)"
    proof (cases "i = pos")
      case True
      then have "0 < pos" using i by simp
      from c2 [OF pc(3) c(2) pc(4) this] have "key (h ! parent pos) \<le> key (h ! c)" .
      moreover have "parent pos \<noteq> pos" "parent pos \<noteq> c"
        using parent_less [OF \<open>0 < pos\<close>] pc by simp_all
      ultimately show ?thesis using True pc by (simp add: nth)
    next
      case False
      note ipos = False
      show ?thesis
      proof (cases "parent i = pos")
        case True
        then have "i = 2 * pos + 1 \<or> i = 2 * pos + 2"
          using parent_eq_iff [OF i(1), of pos] by simp
        from least [OF this i(2)] True i ipos show ?thesis by (simp add: nth)
      next
        case False
        with c1 [OF i(1,2) ipos] i ipos show ?thesis by (simp add: nth)
      qed
    qed
  next
    fix g assume "0 < g \<and> g < length ?h \<and> parent g = c \<and> 0 < c"
    then have g: "0 < g" "g < length h" "parent g = c" by simp_all
    have gc: "c < g" using g parent_less [of g] by simp
    have "g \<noteq> pos" "parent g \<noteq> pos" using gc pc g by simp_all
    from c1 [OF g(1,2) this] g have "key (h ! c) \<le> key (h ! g)" by simp
    then show "key (?h ! parent c) \<le> key (?h ! g)"
      using pc gc by (simp add: nth)
  qed
qed

lemma bubble_inv_leaf:
  assumes "bubble_inv h pos" and "\<not> 2 * pos + 1 < length h"
  shows "heap_except h pos"
  unfolding heap_except_def
proof (intro conjI allI impI)
  fix i assume i: "0 < i \<and> i < length h \<and> i \<noteq> pos"
  have "parent i \<noteq> pos"
  proof
    assume "parent i = pos"
    then have "i = 2 * pos + 1 \<or> i = 2 * pos + 2"
      using parent_eq_iff [of i pos] i by simp
    with i assms(2) show False by auto
  qed
  with i assms(1) show "key (h ! parent i) \<le> key (h ! i)"
    by (simp add: bubble_inv_def)
next
  fix c assume "0 < c \<and> c < length h \<and> parent c = pos \<and> 0 < pos"
  with assms(1) show "key (h ! parent pos) \<le> key (h ! c)"
    by (simp add: bubble_inv_def)
qed

lemma bubble_heap:
  "bubble h pos = Inr (h', leaf) \<Longrightarrow> pos < length h \<Longrightarrow> bubble_inv h pos
     \<Longrightarrow> heap_except h' leaf \<and> leaf < length h' \<and> mset h' = mset h"
proof (induction h pos rule: bubble.induct)
  case (1 h pos)
  show ?case
  proof (cases "2 * pos + 1 < length h")
    case False
    with "1.prems"(1) have "h' = h" "leaf = pos"
      by (simp_all add: bubble.simps [of h pos])
    with "1.prems" False show ?thesis by (simp add: bubble_inv_leaf)
  next
    case True
    note left = True
    show ?thesis
    proof (cases "2 * pos + 2 < length h")
      case False
      let ?c = "2 * pos + 1"
      from "1.prems"(1) left False have nxt: "bubble (exchange h pos ?c) ?c = Inr (h', leaf)"
        by (simp add: bubble.simps [of h pos])
      have "bubble_inv (exchange h pos ?c) ?c"
      proof (rule bubble_inv_down [OF "1.prems"(3)])
        show "?c = 2 * pos + 1 \<or> ?c = 2 * pos + 2" by simp
        show "?c < length h" by (rule left)
        fix d assume "d = 2 * pos + 1 \<or> d = 2 * pos + 2" "d < length h"
        with False have "d = ?c" by auto
        then show "key (h ! ?c) \<le> key (h ! d)" by simp
      qed
      with "1.IH"(3) [OF left False nxt] left
      have "heap_except h' leaf \<and> leaf < length h' \<and> mset h' = mset (exchange h pos ?c)"
        by simp
      moreover have "mset (exchange h pos ?c) = mset h"
        using "1.prems"(2) left by (simp add: mset_exchange)
      ultimately show ?thesis by simp
    next
      case True
      note right = True
      from "1.prems"(1) left right obtain r
        where r: "ModEvent_lt (h ! (2 * pos + 1)) (h ! (2 * pos + 2)) = Inr r"
        by (cases "ModEvent_lt (h ! (2 * pos + 1)) (h ! (2 * pos + 2))")
          (simp_all add: bubble.simps [of h pos])
      show ?thesis
      proof (cases r)
        case True
        let ?c = "2 * pos + 1"
        from r True have le: "key (h ! ?c) \<le> key (h ! (2 * pos + 2))"
          using lt_True_key by fastforce
        from "1.prems"(1) left right r True
        have nxt: "bubble (exchange h pos ?c) ?c = Inr (h', leaf)"
          by (simp add: bubble.simps [of h pos])
        have "bubble_inv (exchange h pos ?c) ?c"
        proof (rule bubble_inv_down [OF "1.prems"(3)])
          show "?c = 2 * pos + 1 \<or> ?c = 2 * pos + 2" by simp
          show "?c < length h" by (rule left)
          fix d assume "d = 2 * pos + 1 \<or> d = 2 * pos + 2" "d < length h"
          with le show "key (h ! ?c) \<le> key (h ! d)" by auto
        qed
        with "1.IH"(1) [OF left right r True nxt] left
        have "heap_except h' leaf \<and> leaf < length h' \<and> mset h' = mset (exchange h pos ?c)"
          by simp
        moreover have "mset (exchange h pos ?c) = mset h"
          using "1.prems"(2) left by (simp add: mset_exchange)
        ultimately show ?thesis by simp
      next
        case False
        let ?c = "2 * pos + 2"
        from r False have le: "key (h ! ?c) \<le> key (h ! (2 * pos + 1))"
          by (simp add: lt_False_key)
        from "1.prems"(1) left right r False
        have nxt: "bubble (exchange h pos ?c) ?c = Inr (h', leaf)"
          by (simp add: bubble.simps [of h pos])
        have "bubble_inv (exchange h pos ?c) ?c"
        proof (rule bubble_inv_down [OF "1.prems"(3)])
          show "?c = 2 * pos + 1 \<or> ?c = 2 * pos + 2" by simp
          show "?c < length h" by (rule right)
          fix d assume "d = 2 * pos + 1 \<or> d = 2 * pos + 2" "d < length h"
          with le show "key (h ! ?c) \<le> key (h ! d)" by auto
        qed
        with "1.IH"(2) [OF left right r False nxt] right
        have "heap_except h' leaf \<and> leaf < length h' \<and> mset h' = mset (exchange h pos ?c)"
          by simp
        moreover have "mset (exchange h pos ?c) = mset h"
          using "1.prems"(2) right by (simp add: mset_exchange)
        ultimately show ?thesis by simp
      qed
    qed
  qed
qed

lemma root_least:
  assumes "heap_inv h" and "i < length h"
  shows "key (h ! 0) \<le> key (h ! i)"
  using assms(2)
proof (induction i rule: less_induct)
  case (less i)
  show ?case
  proof (cases "i = 0")
    case True
    then show ?thesis by simp
  next
    case False
    then have i: "0 < i" by simp
    have "key (h ! 0) \<le> key (h ! parent i)"
      using less.IH [of "parent i"] parent_less [OF i] less.prems by simp
    also have "key (h ! parent i) \<le> key (h ! i)"
      using assms(1) i less.prems by (simp add: heap_inv_def)
    finally show ?thesis .
  qed
qed

lemma heappush_heap:
  assumes "heap_inv h" and "heappush h x = Inr h'"
  shows "heap_inv h' \<and> mset h' = add_mset x (mset h)"
proof -
  have he: "heap_except (h @ [x]) (length h)"
    unfolding heap_except_def
  proof (intro conjI allI impI)
    fix i assume "0 < i \<and> i < length (h @ [x]) \<and> i \<noteq> length h"
    then have i: "0 < i" "i < length h" by simp_all
    with parent_less [of i] assms(1) show "key ((h @ [x]) ! parent i) \<le> key ((h @ [x]) ! i)"
      by (simp add: heap_inv_def nth_append)
  next
    fix c assume c: "0 < c \<and> c < length (h @ [x]) \<and> parent c = length h \<and> 0 < length h"
    then have "c = 2 * length h + 1 \<or> c = 2 * length h + 2"
      using parent_eq_iff [of c "length h"] by simp
    with c show "key ((h @ [x]) ! parent (length h)) \<le> key ((h @ [x]) ! c)"
      by auto
  qed
  from assms(2) have "siftdown (h @ [x]) 0 (length h) = Inr h'"
    by (simp add: heappush_def)
  from siftdown_heap [OF this _ _ he] show ?thesis
    by simp
qed

lemma heappop_heap:
  assumes "heap_inv h" and "heappop h = Inr (m, h')"
  shows "heap_inv h' \<and> mset h = add_mset m (mset h') \<and> (\<forall>x \<in> set h. key m \<le> key x)"
proof -
  from assms(2) have ne: "h \<noteq> []"
    by (auto simp: heappop_def)
  have least: "\<forall>x \<in> set h. key (h ! 0) \<le> key x"
    using root_least [OF assms(1)] by (auto simp: in_set_conv_nth)
  show ?thesis
  proof (cases "butlast h = []")
    case True
    with ne assms(2) have "m = last h" "h' = []"
      by (simp_all add: heappop_def)
    moreover from True ne have "h = [last h]"
      by (metis append_butlast_last_id append_Nil)
    ultimately show ?thesis
      using least by (metis assms(1) heap_inv_def list.size(3) less_nat_zero_code mset.simps
          nth_Cons_0)
  next
    case False
    let ?b = "butlast h"
    let ?h0 = "?b[0 := last h]"
    from False assms(2) ne obtain m0: "m = ?b ! 0" and su: "siftup ?h0 0 = Inr h'"
      by (cases "siftup ?h0 0") (simp_all add: heappop_def Let_def)
    from su obtain h1 leaf where b: "bubble ?h0 0 = Inr (h1, leaf)"
      and sd: "siftdown h1 0 leaf = Inr h'"
      by (cases "bubble ?h0 0") (auto simp: siftup_def)
    have len: "0 < length ?b" using False by (simp only: length_greater_0_conv) simp
    have nth_b: "?b ! i = h ! i" if "i < length ?b" for i
      using that by (simp add: nth_butlast)
    have bi: "bubble_inv ?h0 0"
      unfolding bubble_inv_def
    proof (intro conjI allI impI)
      fix i assume a: "0 < i \<and> i < length ?h0 \<and> i \<noteq> 0 \<and> parent i \<noteq> 0"
      then have i: "0 < i" "i < length ?b" "parent i \<noteq> 0" by simp_all
      have pi: "parent i < i" using i parent_less by simp
      have "key (h ! parent i) \<le> key (h ! i)"
        using assms(1) i by (simp add: heap_inv_def)
      with i pi show "key (?h0 ! parent i) \<le> key (?h0 ! i)"
        by (simp add: nth_b)
    next
      fix c :: nat assume "0 < c \<and> c < length ?h0 \<and> parent c = 0 \<and> (0::nat) < 0"
      then show "key (?h0 ! parent 0) \<le> key (?h0 ! c)" by simp
    qed
    from bubble_heap [OF b _ bi] len
    have h1: "heap_except h1 leaf" "leaf < length h1" "mset h1 = mset ?h0"
      by simp_all
    from siftdown_heap [OF sd _ h1(2) h1(1)]
    have h': "heap_inv h'" "mset h' = mset h1"
      by simp_all
    have "mset ?h0 = add_mset (last h) (mset ?b - {#?b ! 0#})"
      using len by (simp add: mset_update)
    moreover have "?b ! 0 \<in># mset ?b"
      using len by simp
    ultimately have "add_mset (?b ! 0) (mset ?h0) = add_mset (last h) (mset ?b)"
      by simp
    also have "\<dots> = mset (?b @ [last h])"
      by simp
    also have "\<dots> = mset h"
      using ne by simp
    finally have ms: "mset h = add_mset m (mset h')"
      using m0 h'(2) h1(3) by simp
    have "m = h ! 0"
      using m0 len by (simp add: nth_b)
    with least h'(1) ms show ?thesis by simp
  qed
qed

lemma reachable_heap_inv: "reachable q \<Longrightarrow> heap_inv q"
proof (induction rule: reachable.induct)
  case empty
  show ?case by (simp add: heap_inv_def)
next
  case (put q ev q')
  then show ?case using heappush_heap [of q ev q'] by (simp add: pq_put_def)
next
  case (get q m q')
  then show ?case using heappop_heap [of q m q'] by (simp add: pq_get_def split: if_splits)
qed

lemma pq_get_least:
  assumes "reachable q" and "pq_get q = Inr (m, q')"
  shows "mset q = add_mset m (mset q') \<and> (\<forall>x \<in> set q. key m \<le> key x)"
proof -
  from assms(2) have "heappop q = Inr (m, q')"
    by (simp add: pq_get_def split: if_splits)
  from heappop_heap [OF reachable_heap_inv [OF assms(1)] this] show ?thesis
    by simp
qed

lemma key_le_fields:
  assumes "key m \<le> key x"
  shows "(urgent x \<longrightarrow> urgent m)
       \<and> (urgent x = urgent m \<longrightarrow> effective_qty m \<le> effective_qty x)
       \<and> (urgent x = urgent m \<and> effective_qty x = effective_qty m \<longrightarrow> order_id m \<le> order_id x)"
  using assms unfolding key_def effective_qty_def sort_index_def Let_def
  by (auto split: if_splits)

lemma key_le_not_lt: "key m \<le> key x \<Longrightarrow> ModEvent_lt x m \<noteq> Inr True"
  using lt_True_key [of x m] by auto

lemma pops_sorted:
  "pops q ms q' \<Longrightarrow> reachable q
     \<Longrightarrow> sorted_wrt (\<lambda>a b. key a \<le> key b) ms \<and> mset q = mset ms + mset q' \<and> reachable q'"
proof (induction rule: pops.induct)
  case (stop q)
  then show ?case by simp
next
  case (step q m q1 ms q')
  have r1: "reachable q1"
    by (rule reachable.get [OF step.prems step.hyps(1)])
  from step.IH [OF r1]
  have s: "sorted_wrt (\<lambda>a b. key a \<le> key b) ms" and ms: "mset q1 = mset ms + mset q'"
    and r': "reachable q'"
    by simp_all
  from pq_get_least [OF step.prems step.hyps(1)]
  have mq: "mset q = add_mset m (mset q1)" and least: "\<forall>x \<in> set q. key m \<le> key x"
    by simp_all
  have "set ms \<subseteq> set q"
  proof
    fix x assume "x \<in> set ms"
    then have "x \<in># mset q1" using ms by simp
    then have "x \<in># mset q" using mq by simp
    then show "x \<in> set q" by simp
  qed
  with least have "\<forall>x \<in> set ms. key m \<le> key x"
    by blast
  with s mq ms r' show ?case
    by simp
qed

lemmas queue_defs =
  pq_get_def pq_put_def heappush_def heappop_def siftup_def exchange_def parent_def
  ModEvent_lt_def sort_index_def pair_lt_def opt_lt_def
  urgent_event_def normal_event_def later_event_def unquantified_event_def bulk_event_def
  named_event_def sample_event_def Let_def lit_def

lemma put_first: "pq_put [] ev = Inr [ev]"
  by (simp add: pq_put_def heappush_def siftdown.simps [of "[ev]" 0 0])

lemma put_second:
  "pq_put [a] b =
     (case ModEvent_lt b a of
        Inl e \<Rightarrow> Inl e
      | Inr smaller \<Rightarrow> Inr (if smaller then [b, a] else [a, b]))"
  by (simp add: pq_put_def heappush_def siftdown.simps [of "[a, b]" 0 "Suc 0"]
      siftdown.simps [of "[b, a]" 0 0] exchange_def parent_def split: sum.split)

lemma get_single: "pq_get [a] = Inr (a, [])"
  by (simp add: pq_get_def heappop_def)

lemma get_pair: "pq_get [a, b] = Inr (a, [b])"
  by (simp add: pq_get_def heappop_def siftup_def bubble.simps [of "[b]" 0]
      siftdown.simps [of "[b]" 0 0])

subsection \<open>Evaluation of the model\<close>

lemma sql_update_written:
  "sql_update refuses row (build_sets ch) = Inr row' \<Longrightarrow> row' = written row ch"
  using sql_update_Inr [of refuses row "build_sets ch" row'] by (simp add: fold_assign_build_sets)

lemma db_free_time_time [simp]: "db_free env (snd (time_time env w)) n = db_free env w n"
  by (simp add: db_free_def)

lemmas lt_defs =
  ModEvent_lt_def sort_index_def pair_lt_def opt_lt_def
  urgent_event_def normal_event_def later_event_def unquantified_event_def bulk_event_def
  named_event_def sample_event_def Let_def lit_def

text \<open>A \<open>put\<close> can raise: two requests that agree up to the order id and differ by a client
  name that only one of them has.\<close>

lemma put_can_raise: "pq_put [sample_event] named_event = Inl TypeError"
  by (simp add: put_second lt_defs)

section \<open>The claims\<close>

text \<open>
  C10. Every finalization (\<open>_finish\<close>) adds one to \<open>processed\<close> and one to the counter of
  its code and to no other, so a metrics state whose total is the sum of the four counters
  stays so; the same holds across a whole iteration of the worker and across the loop,
  whether they end normally or by an exception. The initial metrics satisfy the invariant
  (see the witness).
\<close>

theorem metrics_total_is_sum_of_counters:
  assumes "metrics_inv (stats w)"
  shows "metrics_inv (stats (snd (finish env w ev c t0 d)))
       \<and> processed (stats (snd (finish env w ev c t0 d))) = processed (stats w) + 1
       \<and> counter c' (stats (snd (finish env w ev c t0 d)))
           = counter c' (stats w) + (if c' = c then 1 else 0)
       \<and> metrics_inv (stats (snd (process_event env w ev)))
       \<and> metrics_inv (stats (snd (worker_loop env w evs)))"
  using assms
  by (simp add: stats_finish metrics_inv_record_outcome record_outcome_counts
      metrics_inv_process_event metrics_inv_worker_loop)

theorem metrics_total_is_sum_of_counters_witness:
  "metrics_inv (stats sample_world)
   \<and> metrics_inv (stats (snd (process_event sample_env sample_world sample_event)))
   \<and> metrics_inv (stats (snd (worker_loop sample_env sample_world [sample_event, sample_event])))"
proof -
  have h: "metrics_inv (stats sample_world)"
    by (simp add: sample_world_def metrics0_def metrics_inv_def)
  show ?thesis
    using h metrics_total_is_sum_of_counters [OF h, of sample_env sample_event MOD_OK 0
        "\<lparr>reason = None, info_changes = None\<rparr>" MOD_OK "[sample_event, sample_event]"]
    by simp
qed

text \<open>
  C6. \<open>_finish\<close> increments \<open>processed\<close> before it calls \<open>_update_latency\<close>, which reads
  the incremented value as \<open>n\<close>. The average after a request is therefore
  \<open>(avg * (n + 1) + latency) / (n + 2)\<close> for \<open>n\<close> requests processed before it, not the
  recurrence of the arithmetic mean: from the initial metrics, a first request of 100 ms
  leaves an average of 50 ms.
\<close>

theorem average_uses_incremented_count:
  "avg_latency_ms (record_outcome m c ms)
     = (avg_latency_ms m * (real (processed m) + 1) + ms) / (real (processed m) + 2)
   \<and> avg_latency_ms (record_outcome metrics0 MOD_OK 100) = 50"
  by (cases c) (simp_all add: record_outcome_def update_latency_def metrics0_def Let_def
      add.commute)

text \<open>
  C3. A call of \<open>apply_modification_atomic\<close> either leaves the whole table as it was
  (whenever it does not return \<open>True\<close>: a \<open>False\<close> return or an exception), or returns
  \<open>True\<close> and replaces the one row of the order by a row in which every editable column
  holds the value of the change set where the change set has one and its prior value
  otherwise, while \<open>id\<close>, \<open>state\<close>, \<open>created_at\<close> and \<open>confirmed_at\<close> keep their values.
  No other row changes, since the new table is the old one updated at the order's key.
  This holds whatever the parser, the database (busy or not, whatever text it refuses to
  bind) and the clock.
\<close>

theorem conditional_update_all_or_none:
  assumes "apply_modification_atomic parse refuses busy now tbl oid ch = (r, tbl')"
  shows "(r \<noteq> Inr True \<and> tbl' = tbl) \<or>
         (r = Inr True \<and> (\<exists>row row'. tbl oid = Some row \<and> tbl' = tbl(oid \<mapsto> row')
            \<and> client_name row' = (case c_client_name ch of None \<Rightarrow> client_name row | Some v \<Rightarrow> v)
            \<and> product_col row' = (case c_product ch of None \<Rightarrow> product_col row | Some v \<Rightarrow> v)
            \<and> size_col row' = (case c_size ch of None \<Rightarrow> size_col row | Some v \<Rightarrow> v)
            \<and> qty row' = (case c_qty ch of None \<Rightarrow> qty row | Some v \<Rightarrow> v)
            \<and> payment_method row'
                = (case c_payment_method ch of None \<Rightarrow> payment_method row | Some v \<Rightarrow> v)
            \<and> id_col row' = id_col row \<and> state row' = state row
            \<and> created_at row' = created_at row \<and> confirmed_at row' = confirmed_at row))"
proof (cases "r = Inr True")
  case False
  with assms apply_unchanged [of parse refuses busy now tbl oid ch] show ?thesis
    by simp
next
  case True
  with assms obtain row row' where row: "tbl oid = Some row"
    and up: "sql_update refuses row (build_sets ch) = Inr row'"
    and tbl': "tbl' = tbl(oid \<mapsto> row')"
    by (auto simp: apply_modification_atomic_def split: option.splits sum.splits if_splits)
  from sql_update_written [OF up] have "row' = written row ch" .
  then have "client_name row' = (case c_client_name ch of None \<Rightarrow> client_name row | Some v \<Rightarrow> v)
      \<and> product_col row' = (case c_product ch of None \<Rightarrow> product_col row | Some v \<Rightarrow> v)
      \<and> size_col row' = (case c_size ch of None \<Rightarrow> size_col row | Some v \<Rightarrow> v)
      \<and> qty row' = (case c_qty ch of None \<Rightarrow> qty row | Some v \<Rightarrow> v)
      \<and> payment_method row'
          = (case c_payment_method ch of None \<Rightarrow> payment_method row | Some v \<Rightarrow> v)
      \<and> id_col row' = id_col row \<and> state row' = state row
      \<and> created_at row' = created_at row \<and> confirmed_at row' = confirmed_at row"
    by (simp add: written_def)
  with True row tbl' show ?thesis
    by blast
qed

theorem conditional_update_all_or_none_witness:
  "apply_modification_atomic sample_parse (\<lambda>s. None) False 1060 [7 \<mapsto> sample_row] 7
       (build_changes sample_event)
     = (Inr True, [7 \<mapsto> sample_row\<lparr>qty := 3\<rparr>])
   \<and> (\<exists>row'. [7 \<mapsto> sample_row\<lparr>qty := 3\<rparr>] = [7 \<mapsto> sample_row](7 \<mapsto> row')
         \<and> qty row' = 3 \<and> client_name row' = client_name sample_row
         \<and> state row' = state sample_row \<and> confirmed_at row' = confirmed_at sample_row)"
  using conditional_update_all_or_none [OF sample_apply] sample_apply
  by (auto simp: build_changes_def sample_event_def stripped_def truthy_def)

text \<open>
  C1, as the code has it. The claim as stated fails in both directions: a confirmed order
  inside its window is refused when the change set is empty, and an order whose state is not
  \<open>confirmed\<close> is updated when it has a \<open>confirmed_at\<close> inside the window and its state is
  none of the three locked ones. And a call does not always return: for a quantity of
  \<open>2^63\<close> it raises \<open>OverflowError\<close>, and when the database is locked it raises
  \<open>sqlite3.OperationalError\<close>.
\<close>

theorem conditional_update_false_iff_counterexample:
  "state sample_row = lit ''confirmed''
   \<and> confirmed_at sample_row = Some (lit ''2024-01-01 12:00:00'')
   \<and> sample_parse (lit ''2024-01-01 12:00:00'') = Inr 1000
   \<and> (1060 :: real) - 1000 \<le> EDIT_WINDOW_SECONDS
   \<and> apply_modification_atomic sample_parse (\<lambda>s. None) False 1060 [7 \<mapsto> sample_row] 7
         empty_changes
       = (Inr False, [7 \<mapsto> sample_row])
   \<and> state (sample_row\<lparr>state := lit ''draft''\<rparr>) \<noteq> lit ''confirmed''
   \<and> apply_modification_atomic sample_parse (\<lambda>s. None) False 1060
         [7 \<mapsto> sample_row\<lparr>state := lit ''draft''\<rparr>] 7 (build_changes sample_event)
       = (Inr True, [7 \<mapsto> sample_row\<lparr>state := lit ''draft'', qty := 3\<rparr>])
   \<and> apply_modification_atomic sample_parse (\<lambda>s. None) False 1060 [7 \<mapsto> sample_row] 7
         (build_changes huge_event)
       = (Inl OverflowError, [7 \<mapsto> sample_row])
   \<and> apply_modification_atomic sample_parse (\<lambda>s. None) True 1060 [7 \<mapsto> sample_row] 7
         (build_changes sample_event)
       = (Inl OperationalError, [7 \<mapsto> sample_row])"
  by (simp add: apply_modification_atomic_def huge_event_def sample_defs model_defs)

text \<open>
  C1, amended. Take a call that gets the database, for an order id that is a 64-bit
  integer and an order whose \<open>confirmed_at\<close> text, if it has one, parses. The call returns
  \<open>False\<close> if and only if the order does not exist, its \<open>confirmed_at\<close> is null or empty,
  more than \<open>EDIT_WINDOW_SECONDS\<close> have passed since \<open>confirmed_at\<close> at the reading of the
  clock, its state is \<open>cancelled\<close>, \<open>cooking\<close> or \<open>done\<close>, or the change set holds no value
  for any editable column. Whenever the call does not return \<open>True\<close> the table is unchanged.
  In every other case, if the values of the change set are ones the database takes (text it
  binds, a quantity between 1 and \<open>2^63 - 1\<close>), it writes the change set over the row and
  returns \<open>True\<close>.
\<close>

theorem conditional_update_false_iff:
  assumes "int64 oid" and "parses parse (tbl oid)"
  shows "(fst (apply_modification_atomic parse refuses False now tbl oid ch) = Inr False \<longleftrightarrow>
            tbl oid = None
          \<or> (\<exists>row. tbl oid = Some row \<and>
                (\<not> truthy (confirmed_at row)
                 \<or> (\<exists>s t. confirmed_at row = Some s \<and> parse s = Inr t
                        \<and> now - t > EDIT_WINDOW_SECONDS)
                 \<or> state row \<in> set locked_states
                 \<or> no_fields ch)))
       \<and> (fst (apply_modification_atomic parse refuses False now tbl oid ch) \<noteq> Inr True \<longrightarrow>
            snd (apply_modification_atomic parse refuses False now tbl oid ch) = tbl)
       \<and> (accepted refuses ch
          \<and> fst (apply_modification_atomic parse refuses False now tbl oid ch) \<noteq> Inr False \<longrightarrow>
            (\<exists>row. tbl oid = Some row \<and>
               apply_modification_atomic parse refuses False now tbl oid ch
                 = (Inr True, tbl(oid \<mapsto> written row ch))))"
proof (intro conjI)
  show "fst (apply_modification_atomic parse refuses False now tbl oid ch) \<noteq> Inr True \<longrightarrow>
            snd (apply_modification_atomic parse refuses False now tbl oid ch) = tbl"
    by (simp add: apply_unchanged)
next
  show "fst (apply_modification_atomic parse refuses False now tbl oid ch) = Inr False \<longleftrightarrow>
            tbl oid = None
          \<or> (\<exists>row. tbl oid = Some row \<and>
                (\<not> truthy (confirmed_at row)
                 \<or> (\<exists>s t. confirmed_at row = Some s \<and> parse s = Inr t
                        \<and> now - t > EDIT_WINDOW_SECONDS)
                 \<or> state row \<in> set locked_states
                 \<or> no_fields ch))"
  proof (cases "tbl oid")
    case None
    with assms(1) show ?thesis by (simp add: apply_modification_atomic_def)
  next
    case (Some row)
    show ?thesis
    proof (cases "truthy (confirmed_at row)")
      case False
      with Some assms(1) show ?thesis by (simp add: apply_modification_atomic_def)
    next
      case True
      then obtain s where s: "confirmed_at row = Some s" "s \<noteq> []"
        by (auto simp: truthy_def split: option.splits)
      with assms(2) Some obtain t where t: "parse s = Inr t"
        by (auto simp: parses_def split: sum.splits)
      from Some True s t assms(1) show ?thesis
        by (cases "sql_update refuses row (build_sets ch)")
          (simp_all add: apply_modification_atomic_def to_ts_def build_sets_Nil)
    qed
  qed
next
  show "accepted refuses ch
          \<and> fst (apply_modification_atomic parse refuses False now tbl oid ch) \<noteq> Inr False \<longrightarrow>
            (\<exists>row. tbl oid = Some row \<and>
               apply_modification_atomic parse refuses False now tbl oid ch
                 = (Inr True, tbl(oid \<mapsto> written row ch)))"
  proof (cases "tbl oid")
    case None
    with assms(1) show ?thesis by (simp add: apply_modification_atomic_def)
  next
    case (Some row)
    show ?thesis
    proof (cases "truthy (confirmed_at row)")
      case False
      with Some assms(1) show ?thesis by (simp add: apply_modification_atomic_def)
    next
      case True
      then obtain s where s: "confirmed_at row = Some s" "s \<noteq> []"
        by (auto simp: truthy_def split: option.splits)
      with assms(2) Some obtain t where t: "parse s = Inr t"
        by (auto simp: parses_def split: sum.splits)
      from Some True s t assms(1) show ?thesis
        by (simp add: apply_modification_atomic_def to_ts_def sql_update_accepted)
    qed
  qed
qed

theorem conditional_update_false_iff_witness:
  "int64 7
   \<and> parses sample_parse ([7 \<mapsto> sample_row] (7 :: int))
   \<and> accepted (\<lambda>s. None) (build_changes sample_event)
   \<and> fst (apply_modification_atomic sample_parse (\<lambda>s. None) False 1060 [7 \<mapsto> sample_row] 7
            (build_changes sample_event)) \<noteq> Inr False
   \<and> apply_modification_atomic sample_parse (\<lambda>s. None) False 1060 [7 \<mapsto> sample_row] 7
        (build_changes sample_event)
       = (Inr True, [7 \<mapsto> written sample_row (build_changes sample_event)])"
proof -
  have h0: "int64 7"
    by (simp add: int64_def)
  have h1: "parses sample_parse ([7 \<mapsto> sample_row] (7 :: int))"
    by (simp add: parses_def sample_defs lit_def)
  have h2: "accepted (\<lambda>s. None) (build_changes sample_event)"
    by (simp add: accepted_def bindable_def build_changes_def stripped_def truthy_def sample_defs)
  have h3: "fst (apply_modification_atomic sample_parse (\<lambda>s. None) False 1060
            [7 \<mapsto> sample_row] 7 (build_changes sample_event)) \<noteq> Inr False"
    by (simp add: sample_apply)
  show ?thesis
    using h0 h1 h2 h3
      conditional_update_false_iff [of 7 sample_parse "[7 \<mapsto> sample_row]" "\<lambda>s. None" 1060
        "build_changes sample_event"]
    by simp
qed

text \<open>
  C4, at an order in a locked state. Order 7 is in state \<open>cooking\<close>, confirmed one minute
  before; the request sets the quantity to 3. The update is refused for the state, a
  rejection no retry can lift, yet the loop does not leave: the fresh read finds the order,
  confirmed and inside the window, so the worker sleeps and calls the store again, three
  attempts and three reads in all with sleeps of 0.25, 0.5 and 1 second, before it ends with
  \<open>MOD_FAIL\<close>.
\<close>

theorem terminal_state_is_retried:
  "outcomes (trace (snd (process_event sample_env cooking_world sample_event))) = [MOD_FAIL]
   \<and> sleeps (trace (snd (process_event sample_env cooking_world sample_event))) = [1/4, 1/2, 1]
   \<and> length (filter is_store_access
        (trace (snd (process_event sample_env cooking_world sample_event)))) = 6"
  by (simp add: cooking_world_def worker_defs sample_defs model_defs)

text \<open>
  C9, as the code has it. The worker guards the two notifications and nothing else. A
  \<open>confirmed_at\<close> that is not in the format makes \<open>to_ts\<close> raise inside
  \<open>apply_modification_atomic\<close>; a database that stays locked makes the call raise
  \<open>sqlite3.OperationalError\<close>; a quantity of \<open>2^63\<close> makes the \<open>UPDATE\<close> raise
  \<open>OverflowError\<close>. Each of these exceptions leaves the loop, and the request gets no
  outcome, neither in the log nor in the metrics. An observer of the metrics that raises
  leaves the loop as well, after the outcome was recorded.
\<close>

theorem every_request_gets_one_outcome_counterexample:
  "fst (process_event sample_env garbage_world sample_event) = Some ValueError
   \<and> outcomes (trace (snd (process_event sample_env garbage_world sample_event))) = []
   \<and> stats (snd (process_event sample_env garbage_world sample_event)) = metrics0
   \<and> fst (process_event busy_env sample_world sample_event) = Some OperationalError
   \<and> outcomes (trace (snd (process_event busy_env sample_world sample_event))) = []
   \<and> stats (snd (process_event busy_env sample_world sample_event)) = metrics0
   \<and> fst (process_event sample_env sample_world huge_event) = Some OverflowError
   \<and> outcomes (trace (snd (process_event sample_env sample_world huge_event))) = []
   \<and> stats (snd (process_event sample_env sample_world huge_event)) = metrics0
   \<and> fst (process_event failing_ui_env sample_world sample_event) = Some CallbackError"
  by (simp add: garbage_world_def failing_ui_env_def busy_env_def huge_event_def worker_defs
      sample_defs model_defs)

text \<open>
  C9, amended. Take a request the worker pops (other than the stop signal) for an order id
  that is a 64-bit integer, whose order, if it exists, has a \<open>confirmed_at\<close> that is null,
  empty or in the format, whose values are ones the database takes (text it binds, a
  quantity below \<open>2^63\<close>), at a time when the database is not busy at any of the calls of
  the repository the iteration can make (two per attempt). The iteration ends with exactly
  one outcome code: one log line is added, with a code \<open>c\<close> among the four, and the metrics
  record exactly that code. The notifications' failures never leave the iteration; the one
  exception that can is raised by the observer of the metrics, after the outcome is
  recorded, and none leaves when the observer does not raise.
\<close>

theorem every_request_gets_one_outcome:
  assumes "int64 (order_id ev)"
    and "parses (strptime env) (db w (order_id ev))"
    and "accepted (text_error env) (build_changes ev)"
    and "db_free env w (2 * MAX_RETRIES)"
  shows "\<exists>c ms. outcomes (trace (snd (process_event env w ev))) = outcomes (trace w) @ [c]
           \<and> stats (snd (process_event env w ev)) = record_outcome (stats w) c ms
           \<and> fst (process_event env w ev)
               = (if ui_raises env (record_outcome (stats w) c ms) then Some CallbackError
                  else None)"
proof (cases "validate (build_changes ev)")
  case (Some r)
  show ?thesis
    unfolding process_event_invalid [OF Some]
    using finish_outcome [of env "snd (time_time env w)" ev MOD_FAIL]
    by (simp del: outcomes_append)
next
  case None
  let ?R = "retry_loop env MAX_RETRIES INITIAL_BACKOFF_S (snd (time_time env w)) (order_id ev)
           (build_changes ev)"
  have "\<not> isl (fst ?R)"
    by (rule retry_loop_no_raise [OF assms(3) assms(1)]) (simp_all add: assms)
  then obtain applied c r w2 where R: "?R = (Inr (applied, c, r), w2)"
    by (cases ?R; cases "fst ?R") auto
  have st: "stats w2 = stats w" and oc: "outcomes (trace w2) = outcomes (trace w)"
    using stats_retry_loop [of env MAX_RETRIES INITIAL_BACKOFF_S "snd (time_time env w)"
        "order_id ev" "build_changes ev"]
      outcomes_retry_loop [of env MAX_RETRIES INITIAL_BACKOFF_S "snd (time_time env w)"
        "order_id ev" "build_changes ev"] R
    by simp_all
  show ?thesis
  proof (cases applied)
    case True
    let ?w3 = "snd (notify env w2 (order_id ev) (build_changes ev))"
    have "stats ?w3 = stats w" "outcomes (trace ?w3) = outcomes (trace w)"
      by (simp_all add: stats_notify notify_simps st oc)
    moreover from R True have R': "?R = (Inr (True, c, r), w2)"
      by simp
    ultimately show ?thesis
      unfolding process_event_applied [OF None R']
      using finish_outcome [of env ?w3 ev]
      by (metis (no_types, lifting))
  next
    case False
    with R have R': "?R = (Inr (False, c, r), w2)"
      by simp
    show ?thesis
      unfolding process_event_rejected [OF None R']
      using finish_outcome [of env w2 ev] st oc
      by (metis (no_types, lifting))
  qed
qed

theorem every_request_gets_one_outcome_witness:
  "int64 (order_id sample_event)
   \<and> parses (strptime sample_env) (db sample_world (order_id sample_event))
   \<and> accepted (text_error sample_env) (build_changes sample_event)
   \<and> db_free sample_env sample_world (2 * MAX_RETRIES)
   \<and> (\<exists>c ms. outcomes (trace (snd (process_event sample_env sample_world sample_event)))
               = outcomes (trace sample_world) @ [c]
           \<and> stats (snd (process_event sample_env sample_world sample_event))
               = record_outcome (stats sample_world) c ms
           \<and> fst (process_event sample_env sample_world sample_event)
               = (if ui_raises sample_env (record_outcome (stats sample_world) c ms)
                  then Some CallbackError else None))
   \<and> outcomes (trace (snd (process_event sample_env sample_world sample_event))) = [MOD_OK]"
proof -
  have h0: "int64 (order_id sample_event)"
    by (simp add: int64_def sample_defs)
  have h1: "parses (strptime sample_env) (db sample_world (order_id sample_event))"
    by (simp add: parses_def sample_defs lit_def)
  have h2: "accepted (text_error sample_env) (build_changes sample_event)"
    by (simp add: accepted_def bindable_def build_changes_def stripped_def truthy_def sample_defs)
  have h3: "db_free sample_env sample_world (2 * MAX_RETRIES)"
    by (simp add: db_free_def sample_defs)
  have "outcomes (trace (snd (process_event sample_env sample_world sample_event))) = [MOD_OK]"
    by (simp add: worker_defs sample_defs model_defs)
  with h0 h1 h2 h3 every_request_gets_one_outcome [OF h0 h1 h2 h3] show ?thesis
    by blast
qed

text \<open>
  C2, as the code has it. The worker calls the repository outside any \<open>try\<close>. Order 7 is
  confirmed and the request, which passes the local validation, is processed more than five
  minutes after \<open>confirmed_at\<close>; the database is locked when the worker calls
  \<open>apply_modification_atomic\<close>. The call raises \<open>sqlite3.OperationalError\<close>, which leaves
  the loop: the request ends with no outcome, \<open>TIME_EXPIRED\<close> is neither logged nor counted.
\<close>

theorem expired_request_is_time_expired_counterexample:
  "db sample_world (order_id sample_event) = Some sample_row
   \<and> state sample_row = lit ''confirmed''
   \<and> confirmed_at sample_row = Some (lit ''2024-01-01 12:00:00'')
   \<and> strptime late_busy_env (lit ''2024-01-01 12:00:00'') = Inr 1000
   \<and> validate (build_changes sample_event) = None
   \<and> clock late_busy_env (Suc (tick sample_world)) - 1000 > EDIT_WINDOW_SECONDS
   \<and> fst (process_event late_busy_env sample_world sample_event) = Some OperationalError
   \<and> outcomes (trace (snd (process_event late_busy_env sample_world sample_event))) = []
   \<and> counter TIME_EXPIRED (stats (snd (process_event late_busy_env sample_world sample_event)))
       = 0"
  by (simp add: late_busy_env_def late_env_def worker_defs sample_defs model_defs)

text \<open>
  C2, amended. Take an order whose \<open>confirmed_at\<close> parses (a confirmed order; its state
  plays no part), a request that passes the local validation, and an iteration in which
  the database is not busy at the first two calls of the repository and the update is
  attempted late: the two readings of the clock that follow the start of the iteration,
  the one inside the first call of \<open>apply_modification_atomic\<close> and the one of the
  worker's re-check, are more than \<open>EDIT_WINDOW_SECONDS\<close> past \<open>confirmed_at\<close>. Then the
  iteration ends with the outcome \<open>TIME_EXPIRED\<close>: one log line with that code, the counter
  of \<open>TIME_EXPIRED\<close> one higher, the counter of \<open>MOD_OK\<close> as it was. The table is unchanged
  and the worker does not sleep. The retry loop gives \<open>TIME_EXPIRED\<close> whatever the number of
  attempts (at least one) and the backoff it is started with.
\<close>

theorem expired_request_is_time_expired:
  assumes "db w (order_id ev) = Some row" and "int64 (order_id ev)"
    and "confirmed_at row = Some s" and "s \<noteq> []" and "strptime env s = Inr ts"
    and "validate (build_changes ev) = None"
    and "\<not> db_busy env (calls w)" and "\<not> db_busy env (Suc (calls w))"
    and "clock env (Suc (tick w)) - ts > EDIT_WINDOW_SECONDS"
    and "clock env (Suc (Suc (tick w))) - ts > EDIT_WINDOW_SECONDS"
  shows "outcomes (trace (snd (process_event env w ev))) = outcomes (trace w) @ [TIME_EXPIRED]
       \<and> fst (process_event env w ev)
           = (if ui_raises env (stats (snd (process_event env w ev))) then Some CallbackError
              else None)
       \<and> db (snd (process_event env w ev)) = db w
       \<and> counter TIME_EXPIRED (stats (snd (process_event env w ev)))
           = counter TIME_EXPIRED (stats w) + 1
       \<and> counter MOD_OK (stats (snd (process_event env w ev))) = counter MOD_OK (stats w)
       \<and> sleeps (trace (snd (process_event env w ev))) = sleeps (trace w)
       \<and> (\<forall>n b. fst (retry_loop env (Suc n) b (snd (time_time env w)) (order_id ev)
                       (build_changes ev))
                 = Inr (False, TIME_EXPIRED, Some ''edit_window_passed''))"
proof -
  let ?w1 = "snd (time_time env w)"
  let ?w2 = "?w1\<lparr>tick := Suc (Suc (tick ?w1)), calls := Suc (Suc (calls ?w1)),
              trace := trace ?w1 @ [Apply (order_id ev) (build_changes ev), Fetch (order_id ev)]\<rparr>"
  have late1: "clock env (tick ?w1) - ts > EDIT_WINDOW_SECONDS"
    and late2: "clock env (Suc (tick ?w1)) - ts > EDIT_WINDOW_SECONDS"
    using assms(9,10) by simp_all
  have row1: "db ?w1 (order_id ev) = Some row"
    using assms(1) by simp
  have nb: "\<not> db_busy env (calls ?w1)" "\<not> db_busy env (Suc (calls ?w1))"
    using assms(7,8) by simp_all
  have R: "retry_loop env (Suc n) b ?w1 (order_id ev) (build_changes ev)
      = (Inr (False, TIME_EXPIRED, Some ''edit_window_passed''), ?w2)"
    for n b
    by (rule retry_loop_expired [OF row1 assms(2,3,4,5) nb late1 late2])
  have P: "process_event env w ev
      = finish env ?w2 ev TIME_EXPIRED (clock env (tick w))
          \<lparr>reason = Some ''edit_window_passed'', info_changes = None\<rparr>"
    using process_event_rejected [OF assms(6) R [of "Suc (Suc 0)" INITIAL_BACKOFF_S,
        folded MAX_RETRIES_Suc]]
    by simp
  show ?thesis
    unfolding P
    by (simp add: finish_simps stats_finish record_outcome_counts R log_line_def
        del: retry_loop.simps)
qed

theorem expired_request_is_time_expired_witness:
  "db sample_world (order_id sample_event) = Some sample_row
   \<and> int64 (order_id sample_event)
   \<and> confirmed_at sample_row = Some (lit ''2024-01-01 12:00:00'')
   \<and> strptime late_env (lit ''2024-01-01 12:00:00'') = Inr 1000
   \<and> validate (build_changes sample_event) = None
   \<and> \<not> db_busy late_env (calls sample_world)
   \<and> \<not> db_busy late_env (Suc (calls sample_world))
   \<and> clock late_env (Suc (tick sample_world)) - 1000 > EDIT_WINDOW_SECONDS
   \<and> clock late_env (Suc (Suc (tick sample_world))) - 1000 > EDIT_WINDOW_SECONDS
   \<and> outcomes (trace (snd (process_event late_env sample_world sample_event))) = [TIME_EXPIRED]
   \<and> db (snd (process_event late_env sample_world sample_event)) = db sample_world"
proof -
  have h1: "db sample_world (order_id sample_event) = Some sample_row"
    by (simp add: sample_defs)
  have h1': "int64 (order_id sample_event)"
    by (simp add: int64_def sample_defs)
  have h2: "confirmed_at sample_row = Some (lit ''2024-01-01 12:00:00'')"
    by (simp add: sample_defs)
  have h3: "lit ''2024-01-01 12:00:00'' \<noteq> []"
    by (simp add: lit_def)
  have h4: "strptime late_env (lit ''2024-01-01 12:00:00'') = Inr 1000"
    by (simp add: late_env_def sample_defs)
  have h5: "validate (build_changes sample_event) = None"
    by (simp add: validate_def outside_def sample_defs model_defs)
  have h6: "\<not> db_busy late_env (calls sample_world)"
    and h7: "\<not> db_busy late_env (Suc (calls sample_world))"
    by (simp_all add: late_env_def sample_defs)
  have h8: "clock late_env (Suc (tick sample_world)) - 1000 > EDIT_WINDOW_SECONDS"
    and h9: "clock late_env (Suc (Suc (tick sample_world))) - 1000 > EDIT_WINDOW_SECONDS"
    by (simp_all add: late_env_def sample_defs EDIT_WINDOW_SECONDS_def)
  show ?thesis
    using h1 h1' h2 h4 h5 h6 h7 h8 h9
      expired_request_is_time_expired [OF h1 h1' h2 h3 h4 h5 h6 h7 h8 h9]
    by (simp add: sample_defs)
qed

text \<open>
  C7. When the retry loop ends with \<open>applied\<close>, the worker calls the kitchen sink and then
  the client sink, each with the order id and the change set, whether or not either raises;
  the log line and the metrics that follow carry \<open>SYNC_FAIL\<close> if at least one of the two
  raised and \<open>MOD_OK\<close> otherwise; and the table stays the one the successful update left:
  the result of one \<open>apply_modification_atomic\<close> that had the database and returned \<open>True\<close>
  on the table the iteration started with.
\<close>

theorem notifications_after_success:
  assumes "validate (build_changes ev) = None"
    and "retry_loop env MAX_RETRIES INITIAL_BACKOFF_S (snd (time_time env w)) (order_id ev)
           (build_changes ev) = (Inr (True, c, r), w2)"
  shows "\<exists>code ms.
           code = (if kitchen_raises env (order_id ev) (build_changes ev)
                      \<or> client_raises env (order_id ev) (build_changes ev)
                   then SYNC_FAIL else MOD_OK)
         \<and> trace (snd (process_event env w ev))
             = trace w2 @
               [KitchenNotify (order_id ev) (build_changes ev),
                ClientNotify (order_id ev) (build_changes ev),
                LogInfo (log_line ev code ms
                           \<lparr>reason = None, info_changes = Some (build_changes ev)\<rparr>),
                UiMetricsUpdate (record_outcome (stats w) code ms)]
         \<and> stats (snd (process_event env w ev)) = record_outcome (stats w) code ms
         \<and> db (snd (process_event env w ev)) = db w2
         \<and> (\<exists>k. apply_modification_atomic (strptime env) (text_error env) False (clock env k)
                    (db w) (order_id ev) (build_changes ev) = (Inr True, db w2))"
proof -
  have st: "stats w2 = stats w"
    using stats_retry_loop [of env MAX_RETRIES INITIAL_BACKOFF_S "snd (time_time env w)"
        "order_id ev" "build_changes ev"] assms(2) by simp
  have ap: "\<exists>k. apply_modification_atomic (strptime env) (text_error env) False (clock env k)
                    (db w) (order_id ev) (build_changes ev) = (Inr True, db w2)"
    using retry_loop_applied [OF assms(2)] by simp
  show ?thesis
    unfolding process_event_applied [OF assms]
    using ap
    by (auto simp: finish_simps stats_finish notify_simps stats_notify st)
qed

theorem notifications_after_success_witness:
  "validate (build_changes sample_event) = None
   \<and> fst (retry_loop failing_kitchen_env MAX_RETRIES INITIAL_BACKOFF_S
            (snd (time_time failing_kitchen_env sample_world)) (order_id sample_event)
            (build_changes sample_event)) = Inr (True, MOD_FAIL, None)
   \<and> (\<exists>ms. trace (snd (process_event failing_kitchen_env sample_world sample_event))
             = [Apply 7 (build_changes sample_event),
                KitchenNotify 7 (build_changes sample_event),
                ClientNotify 7 (build_changes sample_event),
                LogInfo (log_line sample_event SYNC_FAIL ms
                           \<lparr>reason = None, info_changes = Some (build_changes sample_event)\<rparr>),
                UiMetricsUpdate (record_outcome metrics0 SYNC_FAIL ms)])
   \<and> db (snd (process_event failing_kitchen_env sample_world sample_event)) 7
       = Some (sample_row\<lparr>qty := 3\<rparr>)"
proof -
  let ?R = "retry_loop failing_kitchen_env MAX_RETRIES INITIAL_BACKOFF_S
            (snd (time_time failing_kitchen_env sample_world)) (order_id sample_event)
            (build_changes sample_event)"
  have h1: "validate (build_changes sample_event) = None"
    by (simp add: validate_def outside_def sample_defs model_defs)
  have h2: "?R = (Inr (True, MOD_FAIL, None),
      \<lparr>db = [7 \<mapsto> sample_row\<lparr>qty := 3\<rparr>], stats = metrics0, tick = 2, calls = 1,
       trace = [Apply 7 (build_changes sample_event)]\<rparr>)"
    by (simp add: failing_kitchen_env_def worker_defs sample_defs model_defs)
  show ?thesis
    using h1 h2 notifications_after_success [OF h1 h2]
    by (auto simp: failing_kitchen_env_def sample_defs)
qed

text \<open>
  C8, as the code has it. The worker strips the whitespace around a field before it tests
  the membership: a request whose product is \<open>" pepperoni"\<close>, a string outside the set of
  valid products, passes the validation, reaches the store and ends with \<open>MOD_OK\<close>; so does
  one whose product starts with a no-break space.
\<close>

theorem invalid_field_is_rejected_locally_counterexample:
  "new_product spaced_event = Some (lit '' pepperoni'')
   \<and> truthy (new_product spaced_event)
   \<and> lit '' pepperoni'' \<notin> set valid_products
   \<and> outcomes (trace (snd (process_event sample_env sample_world spaced_event))) = [MOD_OK]
   \<and> filter is_store_access (trace (snd (process_event sample_env sample_world spaced_event)))
       = [Apply 7 (build_changes spaced_event)]
   \<and> c_product (build_changes spaced_event) = Some (lit ''pepperoni'')
   \<and> 160 # lit ''pepperoni'' \<notin> set valid_products
   \<and> c_product (build_changes nbsp_event) = Some (lit ''pepperoni'')
   \<and> outcomes (trace (snd (process_event sample_env sample_world nbsp_event))) = [MOD_OK]"
  by (simp add: spaced_event_def nbsp_event_def worker_defs sample_defs model_defs strip_def
      isspace_def)

text \<open>
  C8, amended. If the product, the size or the payment method of a request, when it is
  present (neither \<open>None\<close> nor empty) and after the whitespace around it is stripped, lies
  outside its set of valid values, the iteration adds to the trace a log line with code
  \<open>MOD_FAIL\<close> and the push of the metrics, and nothing else: no call of
  \<open>apply_modification_atomic\<close> and no read of the order. The table is unchanged.
\<close>

theorem invalid_field_is_rejected_locally:
  assumes "outside (stripped (new_product ev)) valid_products
         \<or> outside (stripped (new_size ev)) valid_sizes
         \<or> outside (stripped (new_payment_method ev)) valid_pay"
  shows "\<exists>r ms.
           trace (snd (process_event env w ev))
             = trace w @
               [LogInfo (log_line ev MOD_FAIL ms \<lparr>reason = Some r, info_changes = None\<rparr>),
                UiMetricsUpdate (record_outcome (stats w) MOD_FAIL ms)]
         \<and> stats (snd (process_event env w ev)) = record_outcome (stats w) MOD_FAIL ms
         \<and> db (snd (process_event env w ev)) = db w
         \<and> calls (snd (process_event env w ev)) = calls w
         \<and> filter is_store_access (trace (snd (process_event env w ev)))
             = filter is_store_access (trace w)"
proof -
  from assms have "validate (build_changes ev) \<noteq> None"
    by (auto simp: validate_def build_changes_def)
  then obtain r where r: "validate (build_changes ev) = Some r"
    by blast
  show ?thesis
    unfolding process_event_invalid [OF r]
    by (auto simp: finish_simps stats_finish)
qed

theorem invalid_field_is_rejected_locally_witness:
  "outside (stripped (new_product vegetarian_event)) valid_products
   \<and> outcomes (trace (snd (process_event sample_env sample_world vegetarian_event))) = [MOD_FAIL]
   \<and> filter is_store_access (trace (snd (process_event sample_env sample_world vegetarian_event)))
       = []
   \<and> db (snd (process_event sample_env sample_world vegetarian_event)) = db sample_world"
proof -
  have h: "outside (stripped (new_product vegetarian_event)) valid_products
         \<or> outside (stripped (new_size vegetarian_event)) valid_sizes
         \<or> outside (stripped (new_payment_method vegetarian_event)) valid_pay"
    by (simp add: vegetarian_event_def outside_def valid_products_def sample_defs model_defs
        strip_def isspace_def)
  have h': "outside (stripped (new_product vegetarian_event)) valid_products"
    by (simp add: vegetarian_event_def outside_def valid_products_def sample_defs model_defs
        strip_def isspace_def)
  show ?thesis
    using h' invalid_field_is_rejected_locally [OF h, of sample_env sample_world]
    by (auto simp: sample_world_def log_line_def)
qed

text \<open>
  C5, as the code has it. The queue orders requests by the comparison of the dataclass and
  keeps no insertion counter: of two requests of equal urgency and equal quantity, the one
  put second is returned first when its order id is smaller. And the quantity of a request
  without one is the constant 9999, not the largest possible: a request that states 20000,
  put before it, is returned after it.
\<close>

theorem pop_returns_least_key_counterexample:
  "urgent normal_event = urgent later_event
   \<and> new_qty normal_event = new_qty later_event
   \<and> pq_put [] normal_event = Inr [normal_event]
   \<and> pq_put [normal_event] later_event = Inr [later_event, normal_event]
   \<and> pq_get [later_event, normal_event] = Inr (later_event, [normal_event])
   \<and> urgent bulk_event = urgent unquantified_event
   \<and> new_qty unquantified_event = None
   \<and> new_qty bulk_event = Some 20000
   \<and> pq_put [] bulk_event = Inr [bulk_event]
   \<and> pq_put [bulk_event] unquantified_event = Inr [unquantified_event, bulk_event]
   \<and> pq_get [unquantified_event, bulk_event] = Inr (unquantified_event, [bulk_event])"
  by (simp add: put_first put_second get_pair lt_defs)

text \<open>
  C5, amended. Take a queue as any sequence of \<open>put\<close> and \<open>get\<close> that returned (none
  raised \<open>TypeError\<close>) has left it. Whenever \<open>get\<close> returns a request, it is one of the
  queue, the others stay, and against every request \<open>x\<close> of the queue: it is urgent if \<open>x\<close>
  is; at equal urgency its effective quantity (the stated quantity when positive, 9999 when
  absent or not positive) is at most that of \<open>x\<close>; at equal urgency and equal effective
  quantity its order id is at most that of \<open>x\<close>; and further ties fall to the remaining
  fields in the order of their declaration, not to the order of insertion: the tuple of
  its fields is at most that of \<open>x\<close>, and the comparison of the dataclass does not put \<open>x\<close>
  before it. Hence successive calls of \<open>get\<close> return the requests of a queue in ascending
  order of that tuple.
\<close>

theorem pop_returns_least_key:
  assumes "reachable q" and "pq_get q = Inr (m, q')"
  shows "m \<in> set q \<and> mset q = add_mset m (mset q') \<and> reachable q'
       \<and> (\<forall>x \<in> set q.
              (urgent x \<longrightarrow> urgent m)
            \<and> (urgent x = urgent m \<longrightarrow> effective_qty m \<le> effective_qty x)
            \<and> (urgent x = urgent m \<and> effective_qty x = effective_qty m
                  \<longrightarrow> order_id m \<le> order_id x)
            \<and> key m \<le> key x
            \<and> ModEvent_lt x m \<noteq> Inr True)
       \<and> (\<forall>ms q''. pops q ms q''
              \<longrightarrow> sorted_wrt (\<lambda>a b. key a \<le> key b) ms \<and> mset q = mset ms + mset q'')"
proof -
  from pq_get_least [OF assms]
  have ms: "mset q = add_mset m (mset q')" and least: "\<forall>x \<in> set q. key m \<le> key x"
    by simp_all
  have "m \<in># mset q"
    unfolding ms by simp
  then have mem: "m \<in> set q"
    by simp
  have r': "reachable q'"
    by (rule reachable.get [OF assms])
  have fields: "\<forall>x \<in> set q.
              (urgent x \<longrightarrow> urgent m)
            \<and> (urgent x = urgent m \<longrightarrow> effective_qty m \<le> effective_qty x)
            \<and> (urgent x = urgent m \<and> effective_qty x = effective_qty m
                  \<longrightarrow> order_id m \<le> order_id x)
            \<and> key m \<le> key x
            \<and> ModEvent_lt x m \<noteq> Inr True"
  proof
    fix x assume "x \<in> set q"
    with least have le: "key m \<le> key x" by blast
    from key_le_fields [OF le] key_le_not_lt [OF le] le
    show "(urgent x \<longrightarrow> urgent m)
            \<and> (urgent x = urgent m \<longrightarrow> effective_qty m \<le> effective_qty x)
            \<and> (urgent x = urgent m \<and> effective_qty x = effective_qty m
                  \<longrightarrow> order_id m \<le> order_id x)
            \<and> key m \<le> key x
            \<and> ModEvent_lt x m \<noteq> Inr True"
      by blast
  qed
  have sorted: "\<forall>ms q''. pops q ms q''
              \<longrightarrow> sorted_wrt (\<lambda>a b. key a \<le> key b) ms \<and> mset q = mset ms + mset q''"
    using pops_sorted [OF _ assms(1)] by blast
  show ?thesis
    by (intro conjI) (fact mem ms r' fields sorted)+
qed

theorem pop_returns_least_key_witness:
  "reachable [urgent_event, normal_event]
   \<and> pq_put [] normal_event = Inr [normal_event]
   \<and> pq_put [normal_event] urgent_event = Inr [urgent_event, normal_event]
   \<and> pq_get [urgent_event, normal_event] = Inr (urgent_event, [normal_event])
   \<and> urgent urgent_event
   \<and> urgent_event \<in> set [urgent_event, normal_event]
   \<and> mset [urgent_event, normal_event] = add_mset urgent_event (mset [normal_event])
   \<and> reachable [normal_event]
   \<and> pops [urgent_event, normal_event] [urgent_event, normal_event] []"
proof -
  have p1: "pq_put [] normal_event = Inr [normal_event]"
    by (rule put_first)
  have p2: "pq_put [normal_event] urgent_event = Inr [urgent_event, normal_event]"
    by (simp add: put_second lt_defs)
  have r: "reachable [urgent_event, normal_event]"
    by (rule reachable.put [OF reachable.put [OF reachable.empty p1] p2])
  have h: "pq_get [urgent_event, normal_event] = Inr (urgent_event, [normal_event])"
    by (rule get_pair)
  have u: "urgent urgent_event"
    by (simp add: urgent_event_def)
  have d: "pops [urgent_event, normal_event] [urgent_event, normal_event] []"
    by (rule pops.step [OF h pops.step [OF get_single pops.stop]])
  note least = pop_returns_least_key [OF r h]
  have t1: "urgent_event \<in> set [urgent_event, normal_event]"
    using least by (rule conjunct1)
  have t2: "mset [urgent_event, normal_event] = add_mset urgent_event (mset [normal_event])"
    using least by (rule conjunct1 [OF conjunct2])
  have t3: "reachable [normal_event]"
    using least by (rule conjunct1 [OF conjunct2 [OF conjunct2]])
  show ?thesis
    by (intro conjI) (fact r p1 p2 h u t1 t2 t3 d)+
qed

end
